theory Spec2Isabelle
  imports Main
begin

unbundle bit_operations_syntax

section \<open>Buffers and the JavaScript operations the decoders use on them\<close>

text \<open>
  A Node.js \<^verbatim>\<open>Buffer\<close> is a sequence of bytes. A byte is modelled as a \<^typ>\<open>char\<close>
  (an 8-bit value), so that archive records can be written as string literals.
  Text decoded from a buffer is kept as its UTF-8 bytes: the characters the
  decoders search for (NUL, space, newline, \<^verbatim>\<open>=\<close>) are ASCII and never occur
  inside a multi-byte sequence.
\<close>

type_synonym byte = char
type_synonym Buffer = "byte list"

text \<open>
  \<^verbatim>\<open>buffer.subarray(start, end)\<close>: a negative index counts from the end, and every
  index is clamped to the buffer.
\<close>

definition relativeIndex :: "nat \<Rightarrow> int \<Rightarrow> nat" where
  "relativeIndex len i = (if i < 0 then nat (max (int len + i) 0) else min (nat i) len)"

definition subarray :: "Buffer \<Rightarrow> int \<Rightarrow> int \<Rightarrow> Buffer" where
  "subarray buffer start end1 =
     (let s = relativeIndex (length buffer) start;
          e = relativeIndex (length buffer) end1
      in take (e - s) (drop s buffer))"

definition subarrayFrom :: "Buffer \<Rightarrow> int \<Rightarrow> Buffer" where
  "subarrayFrom buffer start = drop (relativeIndex (length buffer) start) buffer"

text \<open>
  \<^verbatim>\<open>Buffer.concat(list, totalLength)\<close>: the chunks copied one after the other into
  a buffer of exactly \<^verbatim>\<open>totalLength\<close> bytes, cut when they are longer and
  zero-filled when they are shorter.
\<close>

definition Buffer_concat :: "Buffer list \<Rightarrow> nat \<Rightarrow> Buffer" where
  "Buffer_concat list totalLength =
     take totalLength (concat list) @
     replicate (totalLength - length (concat list)) (CHR 0x00)"

section \<open>The staging buffer: class \<^verbatim>\<open>ChunkBuffer\<close>\<close>

text \<open>
  The fields \<^verbatim>\<open>_chunks\<close> and \<^verbatim>\<open>_size\<close> (the prefix \<open>u\<close> stands for the
  leading underscore). The wait promise and the list of write acknowledgements
  only schedule the producer; they are replaced by the script of arrivals below.
\<close>

record ChunkBuffer =
  u_chunks :: "Buffer list"
  u_size :: nat

definition new_ChunkBuffer :: ChunkBuffer where
  "new_ChunkBuffer = \<lparr>u_chunks = [], u_size = 0\<rparr>"

definition push :: "Buffer list \<Rightarrow> ChunkBuffer \<Rightarrow> ChunkBuffer" where
  "push chunks cb =
     cb\<lparr>u_chunks := u_chunks cb @ chunks,
        u_size := fold (\<lambda>chunk s. s + length chunk) chunks (u_size cb)\<rparr>"

definition giveBack :: "Buffer \<Rightarrow> nat \<Rightarrow> ChunkBuffer \<Rightarrow> ChunkBuffer" where
  "giveBack chunk bytesAtEndToGiveBack cb =
     (let leftovers = subarrayFrom chunk
            (if bytesAtEndToGiveBack \<noteq> 0
             then int (length chunk) - int bytesAtEndToGiveBack else 0)
      in cb\<lparr>u_chunks := [leftovers], u_size := length leftovers\<rparr>)"

definition cleanup :: "ChunkBuffer \<Rightarrow> ChunkBuffer" where
  "cleanup cb = cb\<lparr>u_chunks := [], u_size := 0\<rparr>"

text \<open>
  What the producer does while the worker waits, in order: a call of
  \<^verbatim>\<open>_write\<close> or \<^verbatim>\<open>_writev\<close>, which pushes its chunks, or the stall timer firing
  before any chunk came. The producer's writes are acknowledged only inside
  \<^verbatim>\<open>_waitForMore\<close>, so chunks arrive only while the worker waits there. A script
  that has run out means that nothing comes any more: the timer fires.
\<close>

datatype arrival = Chunks "Buffer list" | Timeout

text \<open>
  What \<^verbatim>\<open>consume\<close> hands to its caller: a buffer, \<^verbatim>\<open>false\<close> after a timeout, or
  the exception \<^verbatim>\<open>Error('IO timeout!')\<close> when \<^verbatim>\<open>throwOnTimeout\<close> is set.
\<close>

datatype consumed = Data Buffer | ReturnedFalse | ThrewIOTimeout

text \<open>
  The first half of \<^verbatim>\<open>consume\<close>: the value of \<^verbatim>\<open>bufferToConsume\<close>, if it is set,
  and the buffer afterwards.
\<close>

definition consumeNow :: "int \<Rightarrow> ChunkBuffer \<Rightarrow> (Buffer \<times> ChunkBuffer) option" where
  "consumeNow sizeWanted cb =
     (if sizeWanted \<noteq> 0 \<and> sizeWanted \<noteq> int (u_size cb) then
        (if int (u_size cb) > sizeWanted then
           (let buffer = Buffer_concat (u_chunks cb) (u_size cb);
                bufferToConsume = subarray buffer 0 sizeWanted;
                leftovers = subarrayFrom buffer sizeWanted
            in Some (bufferToConsume, cb\<lparr>u_chunks := [leftovers], u_size := length leftovers\<rparr>))
         else None)
      else if u_size cb \<noteq> 0 then
        Some (Buffer_concat (u_chunks cb) (u_size cb), cb\<lparr>u_chunks := [], u_size := 0\<rparr>)
      else None)"

text \<open>
  The second half: the \<^verbatim>\<open>do ... while (this._size < sizeWanted)\<close> loop around
  \<^verbatim>\<open>_waitForMore\<close>, then the call \<^verbatim>\<open>this.consume(sizeWanted)\<close>, which passes no
  \<^verbatim>\<open>throwOnTimeout\<close>: if that call has to wait again, a timeout returns \<^verbatim>\<open>false\<close>.
\<close>

fun waitForData ::
  "int \<Rightarrow> bool \<Rightarrow> ChunkBuffer \<Rightarrow> arrival list \<Rightarrow> consumed \<times> ChunkBuffer \<times> arrival list" where
  "waitForData sizeWanted throwOnTimeout cb [] =
     (if throwOnTimeout then ThrewIOTimeout else ReturnedFalse, cb, [])"
| "waitForData sizeWanted throwOnTimeout cb (Timeout # arrivals) =
     (if throwOnTimeout then ThrewIOTimeout else ReturnedFalse, cb, arrivals)"
| "waitForData sizeWanted throwOnTimeout cb (Chunks chunks # arrivals) =
     (let cb' = push chunks cb in
      if int (u_size cb') < sizeWanted then waitForData sizeWanted throwOnTimeout cb' arrivals
      else (case consumeNow sizeWanted cb' of
              Some (bufferToConsume, cb'') \<Rightarrow> (Data bufferToConsume, cb'', arrivals)
            | None \<Rightarrow> waitForData sizeWanted False cb' arrivals))"

definition consume ::
  "int \<Rightarrow> bool \<Rightarrow> ChunkBuffer \<Rightarrow> arrival list \<Rightarrow> consumed \<times> ChunkBuffer \<times> arrival list" where
  "consume sizeWanted throwOnTimeout cb arrivals =
     (case consumeNow sizeWanted cb of
        Some (bufferToConsume, cb') \<Rightarrow> (Data bufferToConsume, cb', arrivals)
      | None \<Rightarrow> waitForData sizeWanted throwOnTimeout cb arrivals)"

text \<open>
  A run of calls on a buffer taken on its own, where the producer may push at
  any time. The pushes are those of the script, in its order. \<open>NextPush\<close> is the
  next push of the script made between two \<^verbatim>\<open>consume\<close> calls (nothing is pushed
  when the script has no push at its head); the pushes that follow are made
  while a \<^verbatim>\<open>consume\<close> call waits.
  \<open>ConsumeCall\<close> is \<^verbatim>\<open>consume(sizeWanted, undefined, throwOnTimeout)\<close>. \<open>wanted\<close> lists
  the sizes the \<^verbatim>\<open>consume\<close> calls of a run ask for. Then the observers the
  conservation property is stated with.
\<close>

datatype call = NextPush | ConsumeCall int bool

fun callSeq ::
  "call list \<Rightarrow> ChunkBuffer \<Rightarrow> arrival list \<Rightarrow> consumed list \<times> ChunkBuffer \<times> arrival list" where
  "callSeq [] cb script = ([], cb, script)"
| "callSeq (NextPush # calls) cb (Chunks chunks # script) =
     callSeq calls (push chunks cb) script"
| "callSeq (NextPush # calls) cb [] = callSeq calls cb []"
| "callSeq (NextPush # calls) cb (Timeout # script) = callSeq calls cb (Timeout # script)"
| "callSeq (ConsumeCall sizeWanted throwOnTimeout # calls) cb script =
     (case consume sizeWanted throwOnTimeout cb script of
        (r, cb', script') \<Rightarrow>
          (case callSeq calls cb' script' of
             (rs, cb'', script'') \<Rightarrow> (r # rs, cb'', script'')))"

fun wanted :: "call list \<Rightarrow> nat list" where
  "wanted [] = []"
| "wanted (NextPush # calls) = wanted calls"
| "wanted (ConsumeCall sizeWanted throwOnTimeout # calls) = nat sizeWanted # wanted calls"

fun dataOf :: "consumed \<Rightarrow> Buffer" where
  "dataOf (Data buffer) = buffer"
| "dataOf ReturnedFalse = []"
| "dataOf ThrewIOTimeout = []"

fun pushedBytes :: "arrival list \<Rightarrow> Buffer" where
  "pushedBytes [] = []"
| "pushedBytes (Chunks chunks # arrivals) = concat chunks @ pushedBytes arrivals"
| "pushedBytes (Timeout # arrivals) = pushedBytes arrivals"

definition buffered :: "ChunkBuffer \<Rightarrow> Buffer" where
  "buffered cb = concat (u_chunks cb)"

definition sizeIsExact :: "ChunkBuffer \<Rightarrow> bool" where
  "sizeIsExact cb = (u_size cb = length (buffered cb))"

section \<open>Values, failures and events shared by the two decoders\<close>

text \<open>
  The value of a header property: \<^verbatim>\<open>null\<close>, a string, an integral number or
  \<^verbatim>\<open>NaN\<close>. A header object is a map from property names; a name outside its
  domain reads as \<^verbatim>\<open>undefined\<close>. The numbers that occur are integers below
  \<open>2 ^ 53\<close> in magnitude, which a JavaScript number holds exactly.
\<close>

datatype jsval = Null | Str string | Num int | NaN

type_synonym header = "string \<Rightarrow> jsval option"

text \<open>The exceptions of the decoders, by the place that throws them.\<close>

datatype error =
    StreamIOTimeout \<comment> \<open>\<^verbatim>\<open>Error('Stream IO timeout!')\<close>\<close>
  | IOTimeout \<comment> \<open>\<^verbatim>\<open>Error('IO timeout!')\<close>, thrown by \<^verbatim>\<open>_waitForMore\<close>\<close>
  | BinaryFieldUnder64Bits \<comment> \<open>\<^verbatim>\<open>'Binary header fields of less than 64 bits not supported, yet...'\<close>\<close>
  | BinaryValueOver53Bits \<comment> \<open>\<^verbatim>\<open>'Binary header value doesn't fit in 53 bits.'\<close>\<close>
  | InvalidZipSignature \<comment> \<open>\<^verbatim>\<open>'Invalid Zip archive signature ...'\<close>\<close>
  | NotStreamingCompatible nat \<comment> \<open>\<^verbatim>\<open>'Zip file not streaming compatible or corrupted. ...'\<close>\<close>
  | BitFieldError \<comment> \<open>the two errors of \<^verbatim>\<open>readBitField\<close>\<close>
  | RangeError \<comment> \<open>a read outside a buffer\<close>
  | TypeError \<comment> \<open>a method called on \<^verbatim>\<open>false\<close>\<close>

text \<open>
  How a run ends when it does not return: an exception leaves the worker (its
  promise is rejected); the worker awaits a promise that nothing resolves; the
  model's fuel is used up; or the run leaves the fragment of JavaScript that is
  modelled (see \<open>mayLooselyEqualFalse\<close> and \<open>toNumber\<close>).
\<close>

datatype fault = Threw error | Pending | OutOfFuel | Unmodelled

datatype ('a, 's) run = Ok 'a 's | Stop fault 's

text \<open>
  What the consumer of a decoder observes, in order: \<^verbatim>\<open>emit('entry', header, fileStream)\<close>
  (the flag tells whether a \<^verbatim>\<open>fileStream\<close> is passed), a buffer pushed into the
  current \<^verbatim>\<open>fileStream\<close>, its end marker \<^verbatim>\<open>push(null)\<close>, and the Zip decoder's
  \<^verbatim>\<open>emit('dataDescriptor', ...)\<close>. The consumer is taken to read every
  \<^verbatim>\<open>fileStream\<close>, so \<^verbatim>\<open>GenericReadable.push\<close> never suspends for good.
\<close>

record descriptor =
  dd_crc32 :: nat
  dd_compressedSize :: nat
  dd_uncompressedSize :: nat

datatype event =
    Entry header bool
  | FilePush Buffer
  | FileEnd
  | DataDescriptorEvent descriptor

text \<open>
  \<^verbatim>\<open>buffer == false\<close> converts the buffer to a string and that string to a number,
  and holds when the number is zero. A buffer with a byte that no numeric
  literal for zero and no white space contains is certainly not equal to
  \<^verbatim>\<open>false\<close>; for the others the model stops with \<open>Unmodelled\<close>.
\<close>

definition zeroLiteralOrSpace :: "byte \<Rightarrow> bool" where
  "zeroLiteralOrSpace b =
     (b \<in> set [CHR 0x09, CHR 0x0A, CHR 0x0B, CHR 0x0C, CHR 0x0D, CHR '' '']
      \<or> b \<in> set ''0123456789.+-eEbBoOxX''
      \<or> 128 \<le> (of_char b :: nat))"

definition mayLooselyEqualFalse :: "Buffer \<Rightarrow> bool" where
  "mayLooselyEqualFalse buffer = list_all zeroLiteralOrSpace buffer"

text \<open>
  The number a header value is converted to by arithmetic; \<^verbatim>\<open>undefined\<close> gives
  \<^verbatim>\<open>NaN\<close> and \<^verbatim>\<open>null\<close> gives 0. Arithmetic on a string value is outside the
  model (\<open>None\<close>).
\<close>

fun toNumber :: "jsval option \<Rightarrow> jsval option" where
  "toNumber None = Some NaN"
| "toNumber (Some Null) = Some (Num 0)"
| "toNumber (Some (Num n)) = Some (Num n)"
| "toNumber (Some NaN) = Some NaN"
| "toNumber (Some (Str s)) = None"

text \<open>\<^verbatim>\<open>Math.ceil(size/512) * 512\<close> on an integer.\<close>

definition alignTo512 :: "int \<Rightarrow> int" where
  "alignTo512 size' = - ((- size') div 512) * 512"

text \<open>A number used as an index or a byte count: \<^verbatim>\<open>NaN\<close> counts as 0.\<close>

fun integerOf :: "jsval \<Rightarrow> int" where
  "integerOf (Num n) = n"
| "integerOf v = 0"

section \<open>The Tar decoder: class \<^verbatim>\<open>TarExtractStream\<close>\<close>

text \<open>
  Both decoders extend \<^verbatim>\<open>Writable\<close> and hold a global header and a staging
  buffer; the model adds the script of what arrives while the worker waits and
  the events emitted so far. \<^verbatim>\<open>writableEnded\<close> is set by \<^verbatim>\<open>end()\<close>, which the
  producer of a modelled run does not call. The Tar decoder adds \<^verbatim>\<open>_endOfTar\<close>
  and, for the model, the successive readings of \<^verbatim>\<open>this.writableLength\<close>.
\<close>

record ExtractStream =
  globalHeader :: header
  chunkBuffer :: ChunkBuffer
  writableEnded :: bool
  arrivals :: "arrival list"
  emitted :: "event list"

record TarExtractStream = ExtractStream +
  endOfTar :: bool
  writableLengths :: "nat list"

type_synonym ZipExtractStream = ExtractStream

text \<open>The constructors, given the scripts of the environment.\<close>

definition new_TarExtractStream :: "arrival list \<Rightarrow> nat list \<Rightarrow> TarExtractStream" where
  "new_TarExtractStream script readings =
     \<lparr>globalHeader = Map.empty, chunkBuffer = new_ChunkBuffer, writableEnded = False,
      arrivals = script, emitted = [], endOfTar = False, writableLengths = readings\<rparr>"

definition new_ZipExtractStream :: "arrival list \<Rightarrow> ZipExtractStream" where
  "new_ZipExtractStream script =
     \<lparr>globalHeader = Map.empty, chunkBuffer = new_ChunkBuffer, writableEnded = False,
      arrivals = script, emitted = []\<rparr>"

definition emit :: "event \<Rightarrow> 'a ExtractStream_scheme \<Rightarrow> 'a ExtractStream_scheme" where
  "emit e this = this\<lparr>emitted := emitted this @ [e]\<rparr>"

subsection \<open>\<^verbatim>\<open>_parseHeader\<close> and its local function \<^verbatim>\<open>entry\<close>\<close>

definition readUInt8 :: "Buffer \<Rightarrow> nat \<Rightarrow> fault + nat" where
  "readUInt8 buffer i =
     (if i < length buffer then Inr (of_char (buffer ! i)) else Inl (Threw RangeError))"

definition readBigUInt64BE :: "Buffer \<Rightarrow> nat \<Rightarrow> fault + int" where
  "readBigUInt64BE buffer i =
     (if i + 8 \<le> length buffer
      then Inr (foldl (\<lambda>acc b. acc * 256 + of_char b) 0 (take 8 (drop i buffer)))
      else Inl (Threw RangeError))"

definition MAX_SAFE_INTEGER :: int where
  "MAX_SAFE_INTEGER = 2 ^ 53 - 1"

definition MIN_SAFE_INTEGER :: int where
  "MIN_SAFE_INTEGER = - (2 ^ 53 - 1)"

text \<open>\<^verbatim>\<open>parseInt(result, 8)\<close>: white space, a sign, then the octal digits.\<close>

definition isWhiteSpace :: "char \<Rightarrow> bool" where
  "isWhiteSpace c = (c \<in> set [CHR 0x09, CHR 0x0A, CHR 0x0B, CHR 0x0C, CHR 0x0D, CHR '' ''])"

definition isOctalDigit :: "char \<Rightarrow> bool" where
  "isOctalDigit c = (c \<in> set ''01234567'')"

definition octalValue :: "string \<Rightarrow> int" where
  "octalValue digits = foldl (\<lambda>acc d. acc * 8 + (of_char d - 48)) 0 digits"

definition parseInt8 :: "string \<Rightarrow> jsval" where
  "parseInt8 s =
     (let t = dropWhile isWhiteSpace s;
          negative = (t \<noteq> [] \<and> hd t = CHR ''-'');
          u = (if t \<noteq> [] \<and> (hd t = CHR ''-'' \<or> hd t = CHR ''+'') then tl t else t);
          digits = takeWhile isOctalDigit u
      in if digits = [] then NaN
         else Num (if negative then - octalValue digits else octalValue digits))"

text \<open>
  The \<^verbatim>\<open>for\<close> loop of \<^verbatim>\<open>entry\<close>: it leaves either through the branch for a byte
  with its most significant bit set, or with the final \<^verbatim>\<open>strSize\<close>.
\<close>

datatype scanned = BinaryValue | StrSize nat

function entryLoop :: "Buffer \<Rightarrow> nat \<Rightarrow> nat \<Rightarrow> nat \<Rightarrow> fault + scanned" where
  "entryLoop buffer offset size' strSize =
     (if strSize < size' then
        (case readUInt8 buffer (offset + strSize) of
           Inl f \<Rightarrow> Inl f
         | Inr byte \<Rightarrow>
             if drop_bit 7 byte AND 1 \<noteq> 0 then Inr BinaryValue
             else if byte = 0 then Inr (StrSize strSize)
             else entryLoop buffer offset size' (Suc strSize))
      else Inr (StrSize strSize))"
  by pat_completeness auto
termination
  by (relation "measure (\<lambda>(buffer, offset, size', strSize). size' - strSize)") auto

text \<open>
  \<^verbatim>\<open>entry(size, isOctal)\<close>, with the variables \<^verbatim>\<open>offset\<close> and \<^verbatim>\<open>allZero\<close> it shares
  with \<^verbatim>\<open>_parseHeader\<close> passed in and returned.
\<close>

definition entry ::
  "Buffer \<Rightarrow> nat \<times> bool \<Rightarrow> nat \<Rightarrow> bool \<Rightarrow> fault + (jsval \<times> nat \<times> bool)" where
  "entry buffer vars size' isOctal =
     (case vars of (offset, allZero) \<Rightarrow>
      (case entryLoop buffer offset size' 0 of
         Inl f \<Rightarrow> Inl f
       | Inr BinaryValue \<Rightarrow>
           if size' * 8 < 64 then Inl (Threw BinaryFieldUnder64Bits)
           else (case readBigUInt64BE buffer (offset + size' - 8) of
                   Inl f \<Rightarrow> Inl f
                 | Inr val \<Rightarrow>
                     if val > MAX_SAFE_INTEGER \<or> val < MIN_SAFE_INTEGER
                     then Inl (Threw BinaryValueOver53Bits)
                     else Inr (Num val, offset + size', False))
       | Inr (StrSize strSize) \<Rightarrow>
           if strSize = 0 then Inr (Null, offset + size', allZero)
           else (let result = subarray buffer (int offset) (int (offset + strSize))
                 in Inr (if isOctal then parseInt8 result else Str result,
                         offset + size', False))))"

text \<open>The properties of the header literal in source order: name, size, \<^verbatim>\<open>isOctal\<close>.\<close>

definition headerFields :: "(string \<times> nat \<times> bool) list" where
  "headerFields =
     [(''name'', 100, False), (''mode'', 8, True), (''uid'', 8, True), (''gid'', 8, True),
      (''size'', 12, True), (''mtime'', 12, True), (''checksum'', 8, False),
      (''typeflag'', 1, False), (''linkname'', 100, False), (''magic'', 6, False),
      (''version'', 2, False), (''uname'', 32, False), (''gname'', 32, False),
      (''devmajor'', 8, True), (''devminor'', 8, True), (''prefix'', 155, False)]"

fun readFields ::
  "Buffer \<Rightarrow> (string \<times> nat \<times> bool) list \<Rightarrow> nat \<times> bool \<Rightarrow> header \<Rightarrow>
   fault + (header \<times> nat \<times> bool)" where
  "readFields buffer [] vars h = Inr (h, vars)"
| "readFields buffer ((name, size', isOctal) # props) vars h =
     (case entry buffer vars size' isOctal of
        Inl f \<Rightarrow> Inl f
      | Inr (v, vars') \<Rightarrow> readFields buffer props vars' (h(name \<mapsto> v)))"

definition parseHeader :: "TarExtractStream \<Rightarrow> (header option, TarExtractStream) run" where
  "parseHeader this =
     (case consume 512 False (chunkBuffer this) (arrivals this) of
        (r, cb, rest) \<Rightarrow>
          (let this' = this\<lparr>chunkBuffer := cb, arrivals := rest\<rparr> in
           case r of
             ThrewIOTimeout \<Rightarrow> Stop (Threw IOTimeout) this'
           | ReturnedFalse \<Rightarrow> Stop (Threw StreamIOTimeout) this'
           | Data buffer \<Rightarrow>
               if mayLooselyEqualFalse buffer then Stop Unmodelled this'
               else (case readFields buffer headerFields (0, True) Map.empty of
                       Inl f \<Rightarrow> Stop f this'
                     | Inr (props, offset, allZero) \<Rightarrow>
                         if allZero then Ok None this'
                         else Ok (Some (props ++ globalHeader this)) this')))"

subsection \<open>\<^verbatim>\<open>_parsePaxEntries\<close>\<close>

text \<open>
  \<^verbatim>\<open>indexOf\<close>, \<^verbatim>\<open>substring\<close> (indices clamped, then swapped when out of order) and
  \<^verbatim>\<open>split\<close> on strings.
\<close>

fun indexOf :: "string \<Rightarrow> char \<Rightarrow> int" where
  "indexOf [] c = -1"
| "indexOf (x # xs) c =
     (if x = c then 0 else (let i = indexOf xs c in if i < 0 then -1 else i + 1))"

definition clampIndex :: "nat \<Rightarrow> int \<Rightarrow> nat" where
  "clampIndex len i = (if i < 0 then 0 else min (nat i) len)"

definition substring :: "string \<Rightarrow> int \<Rightarrow> int \<Rightarrow> string" where
  "substring s start end1 =
     (let a = clampIndex (length s) start;
          b = clampIndex (length s) end1
      in take (max a b - min a b) (drop (min a b) s))"

definition substringFrom :: "string \<Rightarrow> int \<Rightarrow> string" where
  "substringFrom s start = drop (clampIndex (length s) start) s"

fun split :: "string \<Rightarrow> char \<Rightarrow> string list" where
  "split [] c = [[]]"
| "split (x # xs) c =
     (if x = c then [] # split xs c
      else (case split xs c of l # ls \<Rightarrow> (x # l) # ls | [] \<Rightarrow> [[x]]))"

text \<open>
  \<^verbatim>\<open>paxEntries[key] = value\<close>. Assigning a string to \<^verbatim>\<open>__proto__\<close> creates no
  property.
\<close>

definition assign :: "string \<Rightarrow> string \<Rightarrow> header \<Rightarrow> header" where
  "assign key val obj = (if key = ''__proto__'' then obj else obj(key \<mapsto> Str val))"

text \<open>The body of the \<^verbatim>\<open>for (const line of ...)\<close> loop: the key and the value of a line.\<close>

definition paxLine :: "string \<Rightarrow> string \<times> string" where
  "paxLine line =
     (let a = indexOf line CHR '' '';
          b = indexOf line CHR ''=''
      in (substring line a b, substringFrom line (b + 1)))"

definition paxEntriesOfText :: "string \<Rightarrow> header" where
  "paxEntriesOfText text =
     fold (\<lambda>line paxEntries. case paxLine line of (key, val) \<Rightarrow> assign key val paxEntries)
       (split text CHR 0x0A) Map.empty"

definition parsePaxEntries ::
  "jsval option \<Rightarrow> TarExtractStream \<Rightarrow> (header, TarExtractStream) run" where
  "parsePaxEntries size' this =
     (case toNumber size' of
        None \<Rightarrow> Stop Unmodelled this
      | Some n \<Rightarrow>
          (let bufferSize = alignTo512 (integerOf n) in
           case consume bufferSize False (chunkBuffer this) (arrivals this) of
             (r, cb, rest) \<Rightarrow>
               (let this' = this\<lparr>chunkBuffer := cb, arrivals := rest\<rparr> in
                case r of
                  ThrewIOTimeout \<Rightarrow> Stop (Threw IOTimeout) this'
                | ReturnedFalse \<Rightarrow> Stop (Threw StreamIOTimeout) this'
                | Data buffer \<Rightarrow>
                    if mayLooselyEqualFalse buffer then Stop Unmodelled this'
                    else Ok (paxEntriesOfText (subarray buffer 0 (integerOf n))) this')))"

subsection \<open>\<^verbatim>\<open>_pipeFileStream\<close>\<close>

text \<open>
  The \<^verbatim>\<open>while (bytesToConsume)\<close> loop. Each turn takes one reading of
  \<^verbatim>\<open>this.writableLength\<close> (0 when the script has run out) and one unit of fuel.
\<close>

fun pipeLoop :: "nat \<Rightarrow> int \<Rightarrow> int \<Rightarrow> TarExtractStream \<Rightarrow> (unit, TarExtractStream) run" where
  "pipeLoop fuel bytesToPush bytesToConsume this =
     (if bytesToConsume = 0 then Ok () this
      else (case fuel of
              0 \<Rightarrow> Stop OutOfFuel this
            | Suc fuel' \<Rightarrow>
                (let writableLength = (case writableLengths this of [] \<Rightarrow> 0 | w # ws \<Rightarrow> w);
                     available = int (u_size (chunkBuffer this)) + int writableLength;
                     sizeWanted = (if available \<ge> bytesToConsume then bytesToConsume else available)
                 in case consume sizeWanted False (chunkBuffer this) (arrivals this) of
                      (r, cb, rest) \<Rightarrow>
                        (let this1 = this\<lparr>chunkBuffer := cb, arrivals := rest,
                                           writableLengths := tl (writableLengths this)\<rparr> in
                         case r of
                           ThrewIOTimeout \<Rightarrow> Stop (Threw IOTimeout) this1
                         | ReturnedFalse \<Rightarrow> Stop (Threw StreamIOTimeout) this1
                         | Data buffer \<Rightarrow>
                             if mayLooselyEqualFalse buffer then Stop Unmodelled this1
                             else (let bytesToConsume' = bytesToConsume - int (length buffer) in
                                   if bytesToPush \<noteq> 0 then
                                     (let bufferToPush = subarray buffer 0 bytesToPush;
                                          this2 = emit (FilePush bufferToPush) this1;
                                          bytesToPush' = bytesToPush - int (length bufferToPush);
                                          this3 = (if bytesToPush' = 0 then emit FileEnd this2
                                                   else this2)
                                      in pipeLoop fuel' bytesToPush' bytesToConsume' this3)
                                   else pipeLoop fuel' bytesToPush bytesToConsume' this1)))))"

definition pipeFileStream ::
  "nat \<Rightarrow> jsval option \<Rightarrow> TarExtractStream \<Rightarrow> (unit, TarExtractStream) run" where
  "pipeFileStream fuel size' this =
     (case toNumber size' of
        None \<Rightarrow> Stop Unmodelled this
      | Some NaN \<Rightarrow> Ok () this
      | Some n \<Rightarrow> pipeLoop fuel (integerOf n) (alignTo512 (integerOf n)) this)"

subsection \<open>\<^verbatim>\<open>_worker\<close>\<close>

text \<open>\<^verbatim>\<open>v == null\<close> holds for \<^verbatim>\<open>null\<close> and for \<^verbatim>\<open>undefined\<close>.\<close>

definition isNullish :: "jsval option \<Rightarrow> bool" where
  "isNullish v = (v = None \<or> v = Some Null)"

text \<open>
  The \<^verbatim>\<open>switch (header.typeflag)\<close>: for \<^verbatim>\<open>'g'\<close> and \<^verbatim>\<open>'x'\<close> the PAX entries are
  read, stored as the global header for \<^verbatim>\<open>'g'\<close>, and spread over the header that
  is parsed next (over nothing when that one is \<^verbatim>\<open>null\<close>).
\<close>

definition paxSwitch :: "header \<Rightarrow> TarExtractStream \<Rightarrow> (header, TarExtractStream) run" where
  "paxSwitch h this =
     (if h ''typeflag'' = Some (Str ''g'') \<or> h ''typeflag'' = Some (Str ''x'') then
        (case parsePaxEntries (h ''size'') this of
           Stop f this1 \<Rightarrow> Stop f this1
         | Ok paxEntries this1 \<Rightarrow>
             (let this2 = (if h ''typeflag'' = Some (Str ''g'')
                           then this1\<lparr>globalHeader := paxEntries\<rparr> else this1) in
              case parseHeader this2 of
                Stop f this3 \<Rightarrow> Stop f this3
              | Ok None this3 \<Rightarrow> Ok (Map.empty ++ paxEntries) this3
              | Ok (Some h') this3 \<Rightarrow> Ok (h' ++ paxEntries) this3))
      else Ok h this)"

fun worker :: "nat \<Rightarrow> TarExtractStream \<Rightarrow> (unit, TarExtractStream) run" where
  "worker 0 this = (if writableEnded this then Ok () this else Stop OutOfFuel this)"
| "worker (Suc fuel) this =
     (if writableEnded this then Ok () this
      else (case parseHeader this of
              Stop f this1 \<Rightarrow> Stop f this1
            | Ok None this1 \<Rightarrow>
                Ok () (this1\<lparr>endOfTar := True, chunkBuffer := cleanup (chunkBuffer this1)\<rparr>)
            | Ok (Some h) this1 \<Rightarrow>
                (case paxSwitch h this1 of
                   Stop f this2 \<Rightarrow> Stop f this2
                 | Ok h' this2 \<Rightarrow>
                     if isNullish (h' ''linkname'') then
                       (case pipeFileStream (Suc fuel) (h' ''size'') (emit (Entry h' True) this2) of
                          Stop f this3 \<Rightarrow> Stop f this3
                        | Ok u this3 \<Rightarrow> worker fuel this3)
                     else worker fuel (emit (Entry h' False) this2))))"



section \<open>The Zip decoder: class \<^verbatim>\<open>ZipExtractStream\<close>\<close>

definition localFileHeaderSignature :: nat where
  "localFileHeaderSignature = 0x504B0304"

definition centralDirectoryFileHeaderSignature :: nat where
  "centralDirectoryFileHeaderSignature = 0x504B0102"

definition dataDescriptorSignature :: nat where
  "dataDescriptorSignature = 0x504B0708"

subsection \<open>\<^verbatim>\<open>readBitField\<close>\<close>

text \<open>
  The inner loop sets bit \<^verbatim>\<open>resultBitIndex\<close> of the result for every set bit of
  the value, from \<^verbatim>\<open>valueBitIndex\<close> on; it returns the result (read as unsigned,
  \<^verbatim>\<open>>>> 0\<close>) and the next \<^verbatim>\<open>valueBitIndex\<close>.
\<close>

function bitLoop :: "nat \<Rightarrow> nat \<Rightarrow> nat \<Rightarrow> nat \<Rightarrow> nat \<Rightarrow> nat \<times> nat" where
  "bitLoop fromValue valueBitIndex bitSize resultBitIndex result =
     (if resultBitIndex < bitSize then
        bitLoop fromValue (Suc valueBitIndex) bitSize (Suc resultBitIndex)
          (if drop_bit valueBitIndex fromValue AND 1 \<noteq> 0
           then result OR push_bit resultBitIndex 1 else result)
      else (result, valueBitIndex))"
  by pat_completeness auto
termination
  by (relation "measure (\<lambda>(fromValue, valueBitIndex, bitSize, resultBitIndex, result).
        bitSize - resultBitIndex)") auto

fun fieldLoop :: "nat \<Rightarrow> nat \<Rightarrow> (string \<times> nat) list \<Rightarrow> fault + (string \<times> nat) list" where
  "fieldLoop fromValue valueBitIndex [] = Inr []"
| "fieldLoop fromValue valueBitIndex ((field, bitSize) # fieldArray) =
     (if bitSize > 32 then Inl (Threw BitFieldError)
      else (case bitLoop fromValue valueBitIndex bitSize 0 0 of
              (result, valueBitIndex') \<Rightarrow>
                (case fieldLoop fromValue valueBitIndex' fieldArray of
                   Inl f \<Rightarrow> Inl f
                 | Inr rest \<Rightarrow> Inr ((field, result) # rest))))"

definition readBitField :: "nat \<Rightarrow> (string \<times> nat) list \<Rightarrow> fault + (string \<times> nat) list" where
  "readBitField fromValue template =
     (if int fromValue > MAX_SAFE_INTEGER then Inl (Threw BitFieldError)
      else fieldLoop fromValue 0 template)"

definition bitFlag :: "(string \<times> nat) list \<Rightarrow> string \<Rightarrow> nat" where
  "bitFlag flags field = (case map_of flags field of Some v \<Rightarrow> v | None \<Rightarrow> 0)"

subsection \<open>\<^verbatim>\<open>_parseLocalFileHeader\<close>\<close>

record rawHeader =
  version :: nat
  encrypted :: nat
  compressionOption :: nat
  dataDescriptor :: nat
  enhancedDeflation :: nat
  compressedPatchedData :: nat
  strongEncryption :: nat
  unused :: nat
  languageEncoding :: nat
  reserved :: nat
  maskedHeaderValues :: nat
  compression :: nat
  mtime :: nat
  mdate :: nat
  crc32 :: nat
  compressedSize :: nat
  uncompressedSize :: nat
  entryName :: string
  headerRecordOffset :: "nat option"
  diskNumber :: "nat option"
  lastModificationUnixtime :: "nat option"
  lastAccessUnixtime :: "nat option"
  creationUnixtime :: "nat option"

text \<open>
  The little-endian reads of \<^verbatim>\<open>readValue(size)\<close> for sizes 1, 2, 4 and 8, and the
  big-endian \<^verbatim>\<open>readUInt32BE\<close>. The callers advance \<^verbatim>\<open>offset\<close> themselves here.
\<close>

definition readValue :: "Buffer \<Rightarrow> nat \<Rightarrow> nat \<Rightarrow> fault + nat" where
  "readValue buffer offset size' =
     (if offset + size' \<le> length buffer
      then Inr (foldr (\<lambda>b acc. of_char b + 256 * acc) (take size' (drop offset buffer)) 0)
      else Inl (Threw RangeError))"

definition readUInt32LE :: "Buffer \<Rightarrow> nat \<Rightarrow> fault + nat" where
  "readUInt32LE buffer offset = readValue buffer offset 4"

definition readUInt32BE :: "Buffer \<Rightarrow> nat \<Rightarrow> fault + nat" where
  "readUInt32BE buffer offset =
     (if offset + 4 \<le> length buffer
      then Inr (foldl (\<lambda>acc b. acc * 256 + of_char b) 0 (take 4 (drop offset buffer)))
      else Inl (Threw RangeError))"

definition flagTemplate :: "(string \<times> nat) list" where
  "flagTemplate =
     [(''encrypted'', 1), (''compressionOption'', 2), (''dataDescriptor'', 1),
      (''enhancedDeflation'', 1), (''compressedPatchedData'', 1), (''strongEncryption'', 1),
      (''unused'', 4), (''languageEncoding'', 1), (''reserved'', 1),
      (''maskedHeaderValues'', 1)]"

text \<open>The 26 bytes after the signature, up to the two lengths.\<close>

definition fixedPart :: "Buffer \<Rightarrow> fault + (rawHeader \<times> nat \<times> nat)" where
  "fixedPart buffer =
     (case (readValue buffer 0 2, readValue buffer 2 2, readValue buffer 4 2,
            readValue buffer 6 2, readValue buffer 8 2, readValue buffer 10 4,
            readValue buffer 14 4, readValue buffer 18 4, readValue buffer 22 2,
            readValue buffer 24 2) of
        (Inr v, Inr flags, Inr c, Inr mt, Inr md, Inr crc, Inr cs, Inr us, Inr nameLength,
         Inr extraFieldsTotalSize) \<Rightarrow>
          (case readBitField flags flagTemplate of
             Inl f \<Rightarrow> Inl f
           | Inr bits \<Rightarrow>
               Inr (\<lparr>version = v,
                     encrypted = bitFlag bits ''encrypted'',
                     compressionOption = bitFlag bits ''compressionOption'',
                     dataDescriptor = bitFlag bits ''dataDescriptor'',
                     enhancedDeflation = bitFlag bits ''enhancedDeflation'',
                     compressedPatchedData = bitFlag bits ''compressedPatchedData'',
                     strongEncryption = bitFlag bits ''strongEncryption'',
                     unused = bitFlag bits ''unused'',
                     languageEncoding = bitFlag bits ''languageEncoding'',
                     reserved = bitFlag bits ''reserved'',
                     maskedHeaderValues = bitFlag bits ''maskedHeaderValues'',
                     compression = c, mtime = mt, mdate = md, crc32 = crc,
                     compressedSize = cs, uncompressedSize = us, entryName = [],
                     headerRecordOffset = None, diskNumber = None,
                     lastModificationUnixtime = None, lastAccessUnixtime = None,
                     creationUnixtime = None\<rparr>,
                    nameLength, extraFieldsTotalSize))
      | _ \<Rightarrow> Inl (Threw RangeError))"

text \<open>
  The two recognised extra fields, read at \<^verbatim>\<open>offset\<close> (after the field's
  signature and size): the updated header and the number of bytes read.
\<close>

definition zip64Field :: "Buffer \<Rightarrow> nat \<Rightarrow> nat \<Rightarrow> rawHeader \<Rightarrow> fault + (rawHeader \<times> nat)" where
  "zip64Field buffer offset fieldSize h =
     (case (readValue buffer offset 8, readValue buffer (offset + 8) 8) of
        (Inr us, Inr cs) \<Rightarrow>
          (let h1 = h\<lparr>uncompressedSize := us, compressedSize := cs\<rparr> in
           if fieldSize \<ge> 24 then
             (case readValue buffer (offset + 16) 8 of
                Inl f \<Rightarrow> Inl f
              | Inr hro \<Rightarrow>
                  (let h2 = h1\<lparr>headerRecordOffset := Some hro\<rparr> in
                   if fieldSize \<ge> 28 then
                     (case readValue buffer (offset + 24) 4 of
                        Inl f \<Rightarrow> Inl f
                      | Inr dn \<Rightarrow> Inr (h2\<lparr>diskNumber := Some dn\<rparr>, 28))
                   else Inr (h2, 24)))
           else Inr (h1, 16))
      | _ \<Rightarrow> Inl (Threw RangeError))"

definition optionalTime :: "Buffer \<Rightarrow> nat \<Rightarrow> bool \<Rightarrow> fault + (nat option \<times> nat)" where
  "optionalTime buffer offset present =
     (if present then
        (case readValue buffer offset 4 of Inl f \<Rightarrow> Inl f | Inr t \<Rightarrow> Inr (Some t, 4))
      else Inr (None, 0))"

definition timestampField :: "Buffer \<Rightarrow> nat \<Rightarrow> rawHeader \<Rightarrow> fault + (rawHeader \<times> nat)" where
  "timestampField buffer offset h =
     (case readValue buffer offset 1 of
        Inl f \<Rightarrow> Inl f
      | Inr flagByte \<Rightarrow>
          (case readBitField flagByte
                  [(''mTimeIsPresent'', 1), (''aTimeIsPresent'', 1), (''cTimeIsPresent'', 1)] of
             Inl f \<Rightarrow> Inl f
           | Inr flag \<Rightarrow>
               (case optionalTime buffer (offset + 1) (bitFlag flag ''mTimeIsPresent'' \<noteq> 0) of
                  Inl f \<Rightarrow> Inl f
                | Inr (m, nm) \<Rightarrow>
                    (case optionalTime buffer (offset + 1 + nm)
                            (bitFlag flag ''aTimeIsPresent'' \<noteq> 0) of
                       Inl f \<Rightarrow> Inl f
                     | Inr (a, na) \<Rightarrow>
                         (case optionalTime buffer (offset + 1 + nm + na)
                                 (bitFlag flag ''cTimeIsPresent'' \<noteq> 0) of
                            Inl f \<Rightarrow> Inl f
                          | Inr (c, nc) \<Rightarrow>
                              Inr (h\<lparr>lastModificationUnixtime :=
                                        (if m = None then lastModificationUnixtime h else m),
                                      lastAccessUnixtime :=
                                        (if a = None then lastAccessUnixtime h else a),
                                      creationUnixtime :=
                                        (if c = None then creationUnixtime h else c)\<rparr>,
                                   1 + nm + na + nc))))))"

text \<open>The \<^verbatim>\<open>for (let end = ...; offset < end;)\<close> loop over the extra fields.\<close>

function extraFieldLoop :: "Buffer \<Rightarrow> nat \<Rightarrow> nat \<Rightarrow> rawHeader \<Rightarrow> fault + rawHeader" where
  "extraFieldLoop buffer end1 offset h =
     (if offset < end1 then
        (case (readValue buffer offset 2, readValue buffer (offset + 2) 2) of
           (Inr fieldSignature, Inr fieldSize) \<Rightarrow>
             (if fieldSignature = 0x0001 then
                (case zip64Field buffer (offset + 4) fieldSize h of
                   Inl f \<Rightarrow> Inl f
                 | Inr (h', n) \<Rightarrow> extraFieldLoop buffer end1 (offset + 4 + n) h')
              else if fieldSignature = 0x5455 then
                (case timestampField buffer (offset + 4) h of
                   Inl f \<Rightarrow> Inl f
                 | Inr (h', n) \<Rightarrow> extraFieldLoop buffer end1 (offset + 4 + n) h')
              else extraFieldLoop buffer end1 (offset + 4 + fieldSize) h)
         | _ \<Rightarrow> Inl (Threw RangeError))
      else Inr h)"
  by pat_completeness auto
termination
  by (relation "measure (\<lambda>(buffer, end1, offset, h). end1 - offset)") auto

text \<open>
  \<^verbatim>\<open>consume(size, undefined, true)\<close> as the Zip decoder uses it: the buffer is
  used at once, so \<^verbatim>\<open>false\<close> makes the method call on it a \<^verbatim>\<open>TypeError\<close>.
\<close>

definition consumeOrThrow ::
  "int \<Rightarrow> 'a ExtractStream_scheme \<Rightarrow> (Buffer, 'a ExtractStream_scheme) run" where
  "consumeOrThrow sizeWanted this =
     (case consume sizeWanted True (chunkBuffer this) (arrivals this) of
        (r, cb, rest) \<Rightarrow>
          (let this' = this\<lparr>chunkBuffer := cb, arrivals := rest\<rparr> in
           case r of
             ThrewIOTimeout \<Rightarrow> Stop (Threw IOTimeout) this'
           | ReturnedFalse \<Rightarrow> Stop (Threw TypeError) this'
           | Data buffer \<Rightarrow> Ok buffer this'))"

text \<open>\<^verbatim>\<open>fetchString\<close>: here \<^verbatim>\<open>false.toString()\<close> is the string \<^verbatim>\<open>'false'\<close>.\<close>

definition fetchString ::
  "nat \<Rightarrow> 'a ExtractStream_scheme \<Rightarrow> (string, 'a ExtractStream_scheme) run" where
  "fetchString size' this =
     (case consume (int size') True (chunkBuffer this) (arrivals this) of
        (r, cb, rest) \<Rightarrow>
          (let this' = this\<lparr>chunkBuffer := cb, arrivals := rest\<rparr> in
           case r of
             ThrewIOTimeout \<Rightarrow> Stop (Threw IOTimeout) this'
           | ReturnedFalse \<Rightarrow> Ok ''false'' this'
           | Data buffer \<Rightarrow> Ok buffer this'))"

definition parseLocalFileHeader ::
  "'a ExtractStream_scheme \<Rightarrow> (rawHeader, 'a ExtractStream_scheme) run" where
  "parseLocalFileHeader this =
     (case consumeOrThrow 26 this of
        Stop f this1 \<Rightarrow> Stop f this1
      | Ok buffer this1 \<Rightarrow>
          (case fixedPart buffer of
             Inl f \<Rightarrow> Stop f this1
           | Inr (h, nameLength, extraFieldsTotalSize) \<Rightarrow>
               (case fetchString nameLength this1 of
                  Stop f this2 \<Rightarrow> Stop f this2
                | Ok s this2 \<Rightarrow>
                    (let h1 = h\<lparr>entryName := s\<rparr> in
                     if extraFieldsTotalSize \<noteq> 0 then
                       (case consumeOrThrow (int extraFieldsTotalSize) this2 of
                          Stop f this3 \<Rightarrow> Stop f this3
                        | Ok extra this3 \<Rightarrow>
                            (case extraFieldLoop extra extraFieldsTotalSize 0 h1 of
                               Inl f \<Rightarrow> Stop f this3
                             | Inr h2 \<Rightarrow> Ok h2 this3))
                     else Ok h1 this2))))"

subsection \<open>\<^verbatim>\<open>_pipeFileStream\<close>\<close>

text \<open>
  The decompressor \<^verbatim>\<open>createInflateRaw()\<close> is Node's. It is a parameter: a
  function from its state and a written chunk to either the error passed to the
  write callback, or the new state, the number of bytes it processed (by which
  \<^verbatim>\<open>inflate.bytesWritten\<close> grows), the buffers of its \<^verbatim>\<open>'data'\<close> events in order, and
  whether it emits \<^verbatim>\<open>'end'\<close>.
\<close>

datatype 'z written = WriteError | Written 'z nat "Buffer list" bool

type_synonym 'z engine = "'z \<Rightarrow> Buffer \<Rightarrow> 'z written"

text \<open>
  The variables of one call: the decompressor with its \<^verbatim>\<open>bytesWritten\<close>,
  \<^verbatim>\<open>totalWritten\<close>, \<^verbatim>\<open>fileStream._sizePushed\<close>, and the value \<^verbatim>\<open>endPromise\<close> is
  resolved with, once the \<^verbatim>\<open>'end'\<close> handler has run.
\<close>

record 'z piping =
  inflate :: 'z
  bytesWritten :: nat
  totalWritten :: nat
  sizePushed :: nat
  endPromise :: "(nat \<times> nat) option"

text \<open>The \<^verbatim>\<open>'data'\<close> and \<^verbatim>\<open>'end'\<close> handlers, run for the events of one write.\<close>

definition onData ::
  "Buffer list \<Rightarrow> 'z piping \<times> 'a ExtractStream_scheme \<Rightarrow> 'z piping \<times> 'a ExtractStream_scheme" where
  "onData chunks st =
     fold (\<lambda>chunk (p, this).
             (p\<lparr>sizePushed := sizePushed p + length chunk\<rparr>, emit (FilePush chunk) this))
          chunks st"

definition onEnd ::
  "bool \<Rightarrow> 'z piping \<times> 'a ExtractStream_scheme \<Rightarrow> 'z piping \<times> 'a ExtractStream_scheme" where
  "onEnd ends st =
     (case st of (p, this) \<Rightarrow>
        if ends then
          (p\<lparr>endPromise := (if endPromise p = None
                             then Some (bytesWritten p, sizePushed p) else endPromise p)\<rparr>,
           emit FileEnd this)
        else (p, this))"

text \<open>
  The promise around \<^verbatim>\<open>inflate.write(chunk, undefined, callback)\<close>: the handlers
  run for the events of the write, then the callback resolves the promise with
  the new value of \<^verbatim>\<open>done\<close>.
\<close>

definition inflateWrite ::
  "'z engine \<Rightarrow> Buffer \<Rightarrow> 'z piping \<Rightarrow> 'a ExtractStream_scheme \<Rightarrow>
   bool \<times> 'z piping \<times> 'a ExtractStream_scheme" where
  "inflateWrite Z chunk p this =
     (case Z (inflate p) chunk of
        WriteError \<Rightarrow>
          (True, p, this\<lparr>chunkBuffer := giveBack chunk 0 (chunkBuffer this)\<rparr>)
      | Written z n chunks ends \<Rightarrow>
          (case onEnd ends
                  (onData chunks (p\<lparr>inflate := z, bytesWritten := bytesWritten p + n\<rparr>, this)) of
             (p1, this1) \<Rightarrow>
               (let p2 = p1\<lparr>totalWritten := totalWritten p1 + length chunk\<rparr> in
                if totalWritten p2 > bytesWritten p2 then
                  (True, p2,
                   this1\<lparr>chunkBuffer :=
                     giveBack chunk (totalWritten p2 - bytesWritten p2) (chunkBuffer this1)\<rparr>)
                else (False, p2, this1))))"

text \<open>
  The \<^verbatim>\<open>while (!done)\<close> loop inside \<^verbatim>\<open>try\<close>. An exception thrown in it (the
  timeout of \<^verbatim>\<open>consume\<close>, or \<^verbatim>\<open>inflate.write(false)\<close>) is caught by the \<^verbatim>\<open>catch\<close>
  block, which only logs: the loop is left and the function goes on.
\<close>

fun feedLoop ::
  "'z engine \<Rightarrow> nat \<Rightarrow> 'z piping \<Rightarrow> 'a ExtractStream_scheme \<Rightarrow>
   ('z piping, 'a ExtractStream_scheme) run" where
  "feedLoop Z 0 p this = Stop OutOfFuel this"
| "feedLoop Z (Suc fuel) p this =
     (case consume 0 True (chunkBuffer this) (arrivals this) of
        (r, cb, rest) \<Rightarrow>
          (let this1 = this\<lparr>chunkBuffer := cb, arrivals := rest\<rparr> in
           case r of
             ThrewIOTimeout \<Rightarrow> Ok p this1
           | ReturnedFalse \<Rightarrow> Ok p this1
           | Data chunk \<Rightarrow>
               (case inflateWrite Z chunk p this1 of
                  (done, p', this2) \<Rightarrow>
                    if done then Ok p' this2 else feedLoop Z fuel p' this2)))"

text \<open>\<^verbatim>\<open>return await endPromise\<close>: pending for ever unless \<^verbatim>\<open>'end'\<close> was emitted.\<close>

definition awaitEndPromise ::
  "'z piping \<Rightarrow> 'a ExtractStream_scheme \<Rightarrow> (nat \<times> nat, 'a ExtractStream_scheme) run" where
  "awaitEndPromise p this =
     (case endPromise p of Some r \<Rightarrow> Ok r this | None \<Rightarrow> Stop Pending this)"

definition zipPipeFileStream ::
  "'z engine \<Rightarrow> 'z \<Rightarrow> nat \<Rightarrow> nat \<Rightarrow> 'a ExtractStream_scheme \<Rightarrow>
   (nat \<times> nat, 'a ExtractStream_scheme) run" where
  "zipPipeFileStream Z createInflateRaw fuel compressedSize' this =
     (let p = \<lparr>inflate = createInflateRaw, bytesWritten = 0, totalWritten = 0,
                sizePushed = 0, endPromise = None\<rparr> in
      if compressedSize' = 0 then
        (case feedLoop Z fuel p this of
           Stop f this1 \<Rightarrow> Stop f this1
         | Ok p1 this1 \<Rightarrow> awaitEndPromise p1 this1)
      else awaitEndPromise p this)"

subsection \<open>\<^verbatim>\<open>_worker\<close>\<close>

text \<open>\<^verbatim>\<open>log\<close> is \<^verbatim>\<open>function(){}\<close>.\<close>

definition log :: "string \<Rightarrow> 's \<Rightarrow> 's" where
  "log message this = this"

text \<open>The block under \<^verbatim>\<open>if (rawHeader.dataDescriptor)\<close>.\<close>

definition descriptorAt :: "Buffer \<Rightarrow> nat \<Rightarrow> fault + descriptor" where
  "descriptorAt buffer offset =
     (case (readUInt32LE buffer offset, readUInt32LE buffer (offset + 4),
            readUInt32LE buffer (offset + 8)) of
        (Inr c, Inr cs, Inr us) \<Rightarrow>
          Inr \<lparr>dd_crc32 = c, dd_compressedSize = cs, dd_uncompressedSize = us\<rparr>
      | _ \<Rightarrow> Inl (Threw RangeError))"

definition crossCheck :: "descriptor \<Rightarrow> nat \<Rightarrow> nat \<Rightarrow> 's \<Rightarrow> 's" where
  "crossCheck dd dataDecompressed decompressedSize this =
     (let this1 = (if dd_compressedSize dd \<noteq> dataDecompressed
                   then log ''dataDescriptor.compressedSize != dataDecompressed'' this
                   else this)
      in if dd_uncompressedSize dd \<noteq> decompressedSize
         then log ''dataDescriptor.uncompressedSize != decompressedSize'' this1
         else this1)"

definition readDataDescriptor ::
  "nat \<Rightarrow> nat \<Rightarrow> 'a ExtractStream_scheme \<Rightarrow> (unit, 'a ExtractStream_scheme) run" where
  "readDataDescriptor dataDecompressed decompressedSize this =
     (case consumeOrThrow (4 * 4) this of
        Stop f this1 \<Rightarrow> Stop f this1
      | Ok buffer this1 \<Rightarrow>
          (case readUInt32BE buffer 0 of
             Inl f \<Rightarrow> Stop f this1
           | Inr optionalSignature \<Rightarrow>
               if optionalSignature = dataDescriptorSignature then
                 (case descriptorAt buffer 4 of
                    Inl f \<Rightarrow> Stop f this1
                  | Inr dd \<Rightarrow>
                      Ok () (emit (DataDescriptorEvent dd)
                               (crossCheck dd dataDecompressed decompressedSize this1)))
               else
                 (let this2 = this1\<lparr>chunkBuffer := giveBack buffer 4 (chunkBuffer this1)\<rparr> in
                  case descriptorAt buffer 0 of
                    Inl f \<Rightarrow> Stop f this2
                  | Inr dd \<Rightarrow>
                      Ok () (emit (DataDescriptorEvent dd)
                               (crossCheck dd dataDecompressed decompressedSize this2)))))"

text \<open>
  One entry, from \<^verbatim>\<open>_parseLocalFileHeader\<close> to the data descriptor. The emitted
  header is \<^verbatim>\<open>{name, size}\<close>.
\<close>

definition zipEntry ::
  "'z engine \<Rightarrow> 'z \<Rightarrow> nat \<Rightarrow> 'a ExtractStream_scheme \<Rightarrow> (unit, 'a ExtractStream_scheme) run" where
  "zipEntry Z createInflateRaw fuel this =
     (case parseLocalFileHeader this of
        Stop f this1 \<Rightarrow> Stop f this1
      | Ok h this1 \<Rightarrow>
          (let this2 = emit (Entry [''name'' \<mapsto> Str (entryName h),
                                    ''size'' \<mapsto> Num (int (uncompressedSize h))] True) this1 in
           case zipPipeFileStream Z createInflateRaw fuel (compressedSize h) this2 of
             Stop f this3 \<Rightarrow> Stop f this3
           | Ok (dataDecompressed, decompressedSize) this3 \<Rightarrow>
               if dataDescriptor h \<noteq> 0
               then readDataDescriptor dataDecompressed decompressedSize this3
               else Ok () this3))"

fun zipWorker ::
  "'z engine \<Rightarrow> 'z \<Rightarrow> nat \<Rightarrow> bool \<Rightarrow> 'a ExtractStream_scheme \<Rightarrow>
   (unit, 'a ExtractStream_scheme) run" where
  "zipWorker Z createInflateRaw 0 startOfFile this =
     (if writableEnded this then Ok () this else Stop OutOfFuel this)"
| "zipWorker Z createInflateRaw (Suc fuel) startOfFile this =
     (if writableEnded this then Ok () this
      else (case consumeOrThrow 4 this of
              Stop f this1 \<Rightarrow> Stop f this1
            | Ok buffer this1 \<Rightarrow>
                (case readUInt32BE buffer 0 of
                   Inl f \<Rightarrow> Stop f this1
                 | Inr signature \<Rightarrow>
                     if startOfFile \<and> signature \<noteq> localFileHeaderSignature
                     then Stop (Threw InvalidZipSignature) this1
                     else if \<not> startOfFile \<and> signature = centralDirectoryFileHeaderSignature
                     then Ok () (this1\<lparr>writableEnded := True\<rparr>)
                     else if \<not> startOfFile \<and> signature \<noteq> localFileHeaderSignature
                     then Stop (Threw (NotStreamingCompatible signature)) this1
                     else (case zipEntry Z createInflateRaw (Suc fuel) this1 of
                             Stop f this2 \<Rightarrow> Stop f this2
                           | Ok u this2 \<Rightarrow> zipWorker Z createInflateRaw fuel False this2))))"



section \<open>Observers and sample inputs\<close>


fun stateOf :: "('a, 's) run \<Rightarrow> 's" where
  "stateOf (Ok x this) = this"
| "stateOf (Stop f this) = this"

text \<open>
  An emitted event with, of its header object, the values of the listed
  properties only; and the summary of a run: how it ended, what it emitted, and
  the bytes left in the staging buffer.
\<close>

datatype seen =
    SeenEntry "jsval option list" bool
  | SeenPush Buffer
  | SeenEnd
  | SeenDataDescriptor descriptor

fun observe :: "string list \<Rightarrow> event \<Rightarrow> seen" where
  "observe shown (Entry h withFileStream) = SeenEntry (map h shown) withFileStream"
| "observe shown (FilePush buffer) = SeenPush buffer"
| "observe shown FileEnd = SeenEnd"
| "observe shown (DataDescriptorEvent dd) = SeenDataDescriptor dd"

fun summary ::
  "string list \<Rightarrow> ('a, 'b ExtractStream_scheme) run \<Rightarrow> fault option \<times> seen list \<times> Buffer" where
  "summary shown (Ok x this) =
     (None, map (observe shown) (emitted this), buffered (chunkBuffer this))"
| "summary shown (Stop f this) =
     (Some f, map (observe shown) (emitted this), buffered (chunkBuffer this))"

text \<open>
  A 512-byte Tar header record with the given name, size field and typeflag
  (mode 644, the other fields zero), and a block padded with NUL bytes.
\<close>

definition pad :: "nat \<Rightarrow> string \<Rightarrow> Buffer" where
  "pad n s = s @ replicate (n - length s) (CHR 0x00)"

definition tarRecord :: "string \<Rightarrow> string \<Rightarrow> string \<Rightarrow> Buffer" where
  "tarRecord fileName octalSize typeflag =
     pad 512 (pad 100 fileName @ pad 8 ''0000644'' @ pad 8 ''0000000'' @ pad 8 ''0000000'' @
              pad 12 octalSize @ pad 12 ''00000000000'' @ pad 8 ''0000000'' @ pad 1 typeflag)"

text \<open>
  A Zip local file header (with its signature) for deflate, with the low bytes
  of the flags, of \<^verbatim>\<open>compressedSize\<close> and of \<^verbatim>\<open>uncompressedSize\<close> given and no
  extra field; a data descriptor with its three fields' low bytes; and the two
  signatures that may come with it.
\<close>

definition localFileHeader :: "nat \<Rightarrow> nat \<Rightarrow> nat \<Rightarrow> string \<Rightarrow> Buffer" where
  "localFileHeader flags csize usize fileName =
     [CHR 0x50, CHR 0x4B, CHR 0x03, CHR 0x04, CHR 0x14, CHR 0x00, char_of flags, CHR 0x00,
      CHR 0x08, CHR 0x00] @ replicate 8 (CHR 0x00) @
     [char_of csize, CHR 0x00, CHR 0x00, CHR 0x00, char_of usize, CHR 0x00, CHR 0x00, CHR 0x00,
      char_of (length fileName), CHR 0x00, CHR 0x00, CHR 0x00] @ fileName"

definition descriptorBytes :: "nat \<Rightarrow> nat \<Rightarrow> nat \<Rightarrow> Buffer" where
  "descriptorBytes c cs us =
     [char_of c, CHR 0x00, CHR 0x00, CHR 0x00, char_of cs, CHR 0x00, CHR 0x00, CHR 0x00,
      char_of us, CHR 0x00, CHR 0x00, CHR 0x00]"

definition descriptorSignatureBytes :: Buffer where
  "descriptorSignatureBytes = [CHR 0x50, CHR 0x4B, CHR 0x07, CHR 0x08]"

definition centralDirectoryBytes :: Buffer where
  "centralDirectoryBytes = [CHR 0x50, CHR 0x4B, CHR 0x01, CHR 0x02]"

text \<open>
  A stand-in for the decompressor, for sample runs: its state is the number of
  bytes of the compressed stream still to come; it passes those bytes through
  and, as Node's does, emits \<^verbatim>\<open>'end'\<close> when a write brings more input than the
  stream needs.
\<close>

definition copyEngine :: "nat engine" where
  "copyEngine remaining chunk =
     (let n = min remaining (length chunk)
      in Written (remaining - n) n (if n = 0 then [] else [take n chunk])
           (length chunk > remaining))"


text \<open>
  The words of claim C10, as predicates: a line \<^verbatim>\<open>length key=value\<close> is one whose
  first space comes before its first \<^verbatim>\<open>=\<close>; the standard fields are the
  properties of the header literal of \<^verbatim>\<open>_parseHeader\<close>.
\<close>

definition isPaxRecordLine :: "string \<Rightarrow> bool" where
  "isPaxRecordLine line =
     (let a = indexOf line CHR '' ''; b = indexOf line CHR ''='' in 0 \<le> a \<and> a < b)"

definition standardFields :: "string set" where
  "standardFields = fst ` set headerFields"

text \<open>
  Fuel for the sample runs of the Zip decoder, and sample streams. Two states
  about to parse the local file header of an entry \<^verbatim>\<open>a\<close> of unknown size: in one
  the body, a data descriptor without signature and the central directory
  follow in the same chunk; in the other the body arrives in two chunks. An
  archive of two entries \<^verbatim>\<open>a\<close> and \<^verbatim>\<open>b\<close> of unknown size, each followed by its data
  descriptor after the given signature bytes (none, or the optional signature),
  and the central directory. A Tar stream that is the header of an empty file
  and a Zip stream that is one entry with a signed data descriptor, after which
  nothing arrives.
\<close>

definition sampleFuel :: nat where
  "sampleFuel = Suc (Suc (Suc 0))"

definition sampleEntry :: ZipExtractStream where
  "sampleEntry = new_ZipExtractStream
     [Chunks [drop 4 (localFileHeader 8 0 0 ''a'') @ ''hello'' @ descriptorBytes 1 5 5 @
              centralDirectoryBytes]]"

definition sampleSplitEntry :: ZipExtractStream where
  "sampleSplitEntry = new_ZipExtractStream
     [Chunks [drop 4 (localFileHeader 8 0 0 ''a'') @ ''hel''],
      Chunks [''lo'' @ descriptorBytes 1 5 5 @ centralDirectoryBytes]]"

definition twoEntries :: "Buffer \<Rightarrow> Buffer" where
  "twoEntries signature =
     localFileHeader 8 0 0 ''a'' @ ''hello'' @ signature @ descriptorBytes 1 5 5 @
     localFileHeader 8 0 0 ''b'' @ ''world'' @ signature @ descriptorBytes 2 5 5 @
     centralDirectoryBytes"



section \<open>Properties of the staging buffer\<close>

lemma fold_add_length:
  "fold (\<lambda>chunk s. s + length chunk) chunks n = n + length (concat chunks)"
  by (induction chunks arbitrary: n) simp_all

lemma Buffer_concat_exact: "Buffer_concat list (length (concat list)) = concat list"
  by (simp add: Buffer_concat_def)

lemma length_Buffer_concat: "length (Buffer_concat list n) = n"
  by (simp add: Buffer_concat_def)

lemma buffered_push: "buffered (push chunks cb) = buffered cb @ concat chunks"
  by (simp add: buffered_def push_def)

lemma sizeIsExact_push: "sizeIsExact cb \<Longrightarrow> sizeIsExact (push chunks cb)"
  by (simp add: sizeIsExact_def buffered_def push_def fold_add_length)

lemma subarray_split: "subarray buffer 0 n @ subarrayFrom buffer n = buffer"
  by (simp add: subarray_def subarrayFrom_def relativeIndex_def Let_def)

lemma consumeNow_conserves:
  assumes "sizeIsExact cb" and "consumeNow sizeWanted cb = Some (b, cb')"
  shows "b @ buffered cb' = buffered cb \<and> sizeIsExact cb'"
  using assms
  by (auto simp: consumeNow_def sizeIsExact_def buffered_def Let_def Buffer_concat_exact
      subarray_split split: if_splits)

lemma pushedBytes_append: "pushedBytes (xs @ ys) = pushedBytes xs @ pushedBytes ys"
  by (induction xs rule: pushedBytes.induct) simp_all

lemma waitForData_takes:
  "sizeIsExact cb \<Longrightarrow> waitForData sizeWanted t cb script = (r, cb', rest) \<Longrightarrow>
   \<exists>taken. script = taken @ rest \<and>
           dataOf r @ buffered cb' = buffered cb @ pushedBytes taken \<and> sizeIsExact cb'"
proof (induction sizeWanted t cb script rule: waitForData.induct)
  case (1 sizeWanted throwOnTimeout cb)
  then show ?case by (auto split: if_splits)
next
  case (2 sizeWanted throwOnTimeout cb script)
  then have "Timeout # script = [Timeout] @ rest \<and>
             dataOf r @ buffered cb' = buffered cb @ pushedBytes [Timeout] \<and> sizeIsExact cb'"
    by (auto split: if_splits)
  then show ?case by blast
next
  case (3 sizeWanted throwOnTimeout cb chunks script)
  let ?cb = "push chunks cb"
  have ex: "sizeIsExact ?cb" using "3.prems"(1) by (rule sizeIsExact_push)
  have step: "\<exists>taken. script = taken @ rest \<and>
           dataOf r @ buffered cb' = buffered ?cb @ pushedBytes taken \<and> sizeIsExact cb'"
  proof (cases "int (u_size ?cb) < sizeWanted")
    case True
    with 3 ex show ?thesis by simp
  next
    case False
    show ?thesis
    proof (cases "consumeNow sizeWanted ?cb")
      case None
      with 3 ex False show ?thesis by simp
    next
      case (Some found)
      obtain b cb2 where found: "found = (b, cb2)" by (cases found)
      from consumeNow_conserves[OF ex Some[unfolded found]] "3.prems"(2) False Some found
      have "script = [] @ rest \<and> dataOf r @ buffered cb' = buffered ?cb @ pushedBytes [] \<and>
            sizeIsExact cb'" by auto
      then show ?thesis by blast
    qed
  qed
  then obtain taken where t: "script = taken @ rest"
    "dataOf r @ buffered cb' = buffered ?cb @ pushedBytes taken" "sizeIsExact cb'" by blast
  then have "Chunks chunks # script = (Chunks chunks # taken) @ rest \<and>
     dataOf r @ buffered cb' = buffered cb @ pushedBytes (Chunks chunks # taken) \<and> sizeIsExact cb'"
    by (simp add: buffered_push)
  then show ?case by blast
qed

lemma consume_takes:
  assumes "sizeIsExact cb" and "consume sizeWanted t cb script = (r, cb', rest)"
  shows "\<exists>taken. script = taken @ rest \<and>
           dataOf r @ buffered cb' = buffered cb @ pushedBytes taken \<and> sizeIsExact cb'"
proof (cases "consumeNow sizeWanted cb")
  case None
  with assms show ?thesis by (simp add: consume_def waitForData_takes)
next
  case (Some found)
  obtain b cb2 where found: "found = (b, cb2)" by (cases found)
  from consumeNow_conserves[OF assms(1) Some[unfolded found]] assms(2) Some found
  have "script = [] @ rest \<and> dataOf r @ buffered cb' = buffered cb @ pushedBytes [] \<and>
        sizeIsExact cb'" by (auto simp: consume_def)
  then show ?thesis by blast
qed

lemma callSeq_takes:
  "sizeIsExact cb \<Longrightarrow> callSeq calls cb script = (rs, cb', rest) \<Longrightarrow>
   \<exists>taken. script = taken @ rest \<and>
     concat (map dataOf rs) @ buffered cb' = buffered cb @ pushedBytes taken \<and> sizeIsExact cb'"
proof (induction calls cb script arbitrary: rs cb' rest rule: callSeq.induct)
  case (1 cb arrivals)
  then have "arrivals = [] @ rest \<and>
     concat (map dataOf rs) @ buffered cb' = buffered cb @ pushedBytes [] \<and> sizeIsExact cb'"
    by simp
  then show ?case by blast
next
  case (2 calls cb chunks arrivals)
  from "2.prems"(1) have ex: "sizeIsExact (push chunks cb)" by (rule sizeIsExact_push)
  from "2.prems"(2) have run: "callSeq calls (push chunks cb) arrivals = (rs, cb', rest)" by simp
  from "2.IH"[OF ex run] obtain taken where t: "arrivals = taken @ rest"
    "concat (map dataOf rs) @ buffered cb' = buffered (push chunks cb) @ pushedBytes taken"
    "sizeIsExact cb'" by blast
  then have "Chunks chunks # arrivals = (Chunks chunks # taken) @ rest \<and>
     concat (map dataOf rs) @ buffered cb' = buffered cb @ pushedBytes (Chunks chunks # taken) \<and>
     sizeIsExact cb'" by (simp add: buffered_push)
  then show ?case by blast
next
  case (3 calls cb)
  then show ?case by simp
next
  case (4 calls cb script)
  then show ?case by simp
next
  case (5 w t calls cb script)
  obtain r cb1 as1 where s1: "consume w t cb script = (r, cb1, as1)"
    by (cases "consume w t cb script")
  obtain rs2 cb2 as2 where s2: "callSeq calls cb1 as1 = (rs2, cb2, as2)"
    by (cases "callSeq calls cb1 as1")
  from consume_takes[OF "5.prems"(1) s1] obtain t1 where
    a: "script = t1 @ as1" "dataOf r @ buffered cb1 = buffered cb @ pushedBytes t1"
    and e: "sizeIsExact cb1" by blast
  from "5.IH"[OF s1[symmetric] refl e s2] obtain t2 where
    b: "as1 = t2 @ as2" "concat (map dataOf rs2) @ buffered cb2 = buffered cb1 @ pushedBytes t2"
    and e2: "sizeIsExact cb2" by blast
  from "5.prems"(2) s1 s2 have eq: "rs = r # rs2" "cb' = cb2" "rest = as2" by auto
  have "concat (map dataOf rs) @ buffered cb' = dataOf r @ buffered cb1 @ pushedBytes t2"
    using eq b(2) by simp
  also have "\<dots> = buffered cb @ pushedBytes (t1 @ t2)"
    using a(2) by (simp add: pushedBytes_append)
  finally have "script = (t1 @ t2) @ rest \<and>
     concat (map dataOf rs) @ buffered cb' = buffered cb @ pushedBytes (t1 @ t2) \<and>
     sizeIsExact cb'" using a(1) b(1) eq e2 by simp
  then show ?case by blast
qed

lemma consume_conserves:
  assumes "sizeIsExact cb" and "consume sizeWanted t cb script = (r, cb', rest)"
  shows "dataOf r @ buffered cb' @ pushedBytes rest = buffered cb @ pushedBytes script \<and>
         sizeIsExact cb'"
proof -
  from consume_takes[OF assms] obtain taken where
    "script = taken @ rest" "dataOf r @ buffered cb' = buffered cb @ pushedBytes taken"
    "sizeIsExact cb'" by blast
  then show ?thesis by (simp add: pushedBytes_append)
qed

lemma consumeNow_length:
  "consumeNow w cb = Some (b, cb') \<Longrightarrow> 0 < w \<Longrightarrow> length b = nat w"
  by (auto simp: consumeNow_def Let_def subarray_def relativeIndex_def length_Buffer_concat
      split: if_splits)

lemma waitForData_length:
  "waitForData w t cb script = (Data b, cb', rest) \<Longrightarrow> 0 < w \<Longrightarrow> length b = nat w"
proof (induction w t cb script rule: waitForData.induct)
  case (3 sizeWanted throwOnTimeout cb chunks script)
  then show ?case
    by (auto simp: Let_def split: if_splits option.splits dest: consumeNow_length)
qed (auto split: if_splits)

lemma consume_length:
  "consume w t cb script = (Data b, cb', rest) \<Longrightarrow> 0 < w \<Longrightarrow> length b = nat w"
  by (auto simp: consume_def split: option.splits dest: consumeNow_length waitForData_length)

lemma consumeNow_some:
  "0 < w \<Longrightarrow> w \<le> int (u_size cb) \<Longrightarrow> \<exists>b cb'. consumeNow w cb = Some (b, cb')"
  by (auto simp: consumeNow_def Let_def)

lemma u_size_push: "u_size (push chunks cb) = u_size cb + length (concat chunks)"
  by (simp add: push_def fold_add_length)

lemma waitForData_returns:
  "Timeout \<notin> set script \<Longrightarrow> 0 < w \<Longrightarrow>
   nat w \<le> u_size cb + length (pushedBytes script) \<Longrightarrow> int (u_size cb) < w \<Longrightarrow>
   \<exists>b cb' rest. waitForData w t cb script = (Data b, cb', rest)"
proof (induction w t cb script rule: waitForData.induct)
  case (1 sizeWanted throwOnTimeout cb)
  then show ?case by simp
next
  case (2 sizeWanted throwOnTimeout cb arrivals)
  then show ?case by simp
next
  case (3 sizeWanted throwOnTimeout cb chunks arrivals)
  let ?cb = "push chunks cb"
  show ?case
  proof (cases "int (u_size ?cb) < sizeWanted")
    case True
    have "\<exists>b cb' rest. waitForData sizeWanted throwOnTimeout ?cb arrivals = (Data b, cb', rest)"
      using "3.IH"(1)[OF refl True] "3.prems" True by (simp add: u_size_push)
    with True show ?thesis by (simp add: Let_def)
  next
    case False
    then have "sizeWanted \<le> int (u_size ?cb)" by simp
    from consumeNow_some[OF "3.prems"(2) this] obtain b cb' where
      "consumeNow sizeWanted ?cb = Some (b, cb')" by blast
    with False show ?thesis by (simp add: Let_def)
  qed
qed

lemma consume_returns:
  assumes ex: "sizeIsExact cb" and nt: "Timeout \<notin> set script" and pos: "0 < w"
    and enough: "nat w \<le> length (buffered cb) + length (pushedBytes script)"
  shows "\<exists>cb' rest. consume w t cb script =
           (Data (take (nat w) (buffered cb @ pushedBytes script)), cb', rest) \<and>
         buffered cb' @ pushedBytes rest = drop (nat w) (buffered cb @ pushedBytes script) \<and>
         sizeIsExact cb' \<and> Timeout \<notin> set rest"
proof -
  have sz: "u_size cb = length (buffered cb)" using ex by (simp add: sizeIsExact_def)
  have "\<exists>b cb' rest. consume w t cb script = (Data b, cb', rest)"
  proof (cases "consumeNow w cb")
    case None
    have "int (u_size cb) < w"
    proof (rule ccontr)
      assume "\<not> int (u_size cb) < w"
      then have "w \<le> int (u_size cb)" by simp
      from consumeNow_some[OF pos this] None show False by simp
    qed
    from waitForData_returns[OF nt pos _ this, of t] enough sz None
    show ?thesis by (simp add: consume_def)
  next
    case (Some found)
    then show ?thesis by (cases found) (simp add: consume_def)
  qed
  then obtain b cb' rest where c: "consume w t cb script = (Data b, cb', rest)" by blast
  from consume_length[OF c pos] have len: "length b = nat w" .
  from consume_takes[OF ex c] obtain taken where
    t: "script = taken @ rest" "b @ buffered cb' = buffered cb @ pushedBytes taken"
    and e: "sizeIsExact cb'" by auto
  have all: "b @ (buffered cb' @ pushedBytes rest) = buffered cb @ pushedBytes script"
    using t by (simp add: pushedBytes_append)
  have "take (length b) (b @ (buffered cb' @ pushedBytes rest)) = b" by simp
  then have b: "b = take (nat w) (buffered cb @ pushedBytes script)" using all len by simp
  have "drop (length b) (b @ (buffered cb' @ pushedBytes rest)) = buffered cb' @ pushedBytes rest"
    by simp
  then have d: "buffered cb' @ pushedBytes rest = drop (nat w) (buffered cb @ pushedBytes script)"
    using all len by simp
  have "Timeout \<notin> set rest" using nt t(1) by simp
  with c b d e show ?thesis by blast
qed

lemma callSeq_returns:
  "sizeIsExact cb \<Longrightarrow> Timeout \<notin> set script \<Longrightarrow> 0 \<notin> set (wanted calls) \<Longrightarrow>
   sum_list (wanted calls) \<le> length (buffered cb) + length (pushedBytes script) \<Longrightarrow>
   callSeq calls cb script = (rs, cb', rest) \<Longrightarrow>
   \<exists>bs. rs = map Data bs \<and> map length bs = wanted calls \<and>
        concat bs = take (sum_list (wanted calls)) (buffered cb @ pushedBytes script) \<and>
        buffered cb' @ pushedBytes rest =
          drop (sum_list (wanted calls)) (buffered cb @ pushedBytes script)"
proof (induction calls cb script arbitrary: rs cb' rest rule: callSeq.induct)
  case (1 cb arrivals)
  then show ?case by simp
next
  case (2 calls cb chunks arrivals)
  from "2.prems"(1) have ex: "sizeIsExact (push chunks cb)" by (rule sizeIsExact_push)
  from "2.prems"(5) have run: "callSeq calls (push chunks cb) arrivals = (rs, cb', rest)" by simp
  have "\<exists>bs. rs = map Data bs \<and> map length bs = wanted calls \<and>
        concat bs = take (sum_list (wanted calls)) (buffered (push chunks cb) @ pushedBytes arrivals) \<and>
        buffered cb' @ pushedBytes rest =
          drop (sum_list (wanted calls)) (buffered (push chunks cb) @ pushedBytes arrivals)"
    using "2.IH"[OF ex _ _ _ run] "2.prems" by (simp add: buffered_push)
  then show ?case by (simp add: buffered_push)
next
  case (3 calls cb)
  then show ?case by simp
next
  case (4 calls cb script)
  then show ?case by simp
next
  case (5 w t calls cb script)
  let ?src = "buffered cb @ pushedBytes script"
  let ?n = "sum_list (wanted calls)"
  have pos: "0 < w" using "5.prems"(3) by (cases "0 < w") auto
  have enough: "nat w \<le> length (buffered cb) + length (pushedBytes script)"
    and later: "nat w + ?n \<le> length ?src" using "5.prems"(4) by auto
  from consume_returns[OF "5.prems"(1,2) pos enough, of t] obtain cb1 as1 where
    c: "consume w t cb script = (Data (take (nat w) ?src), cb1, as1)"
    and d: "buffered cb1 @ pushedBytes as1 = drop (nat w) ?src"
    and e: "sizeIsExact cb1" and nt: "Timeout \<notin> set as1" by blast
  obtain rs2 cb2 as2 where s2: "callSeq calls cb1 as1 = (rs2, cb2, as2)"
    by (cases "callSeq calls cb1 as1")
  have z: "0 \<notin> set (wanted calls)" using "5.prems"(3) by simp
  have "length (buffered cb1 @ pushedBytes as1) = length ?src - nat w" by (simp only: d length_drop)
  then have en2: "?n \<le> length (buffered cb1) + length (pushedBytes as1)" using later by simp
  from "5.IH"[OF c[symmetric] refl e nt z en2 s2] obtain bs where
    bs: "rs2 = map Data bs" "map length bs = wanted calls"
      "concat bs = take ?n (buffered cb1 @ pushedBytes as1)"
      "buffered cb2 @ pushedBytes as2 = drop ?n (buffered cb1 @ pushedBytes as1)" by blast
  from "5.prems"(5) c s2 have eq: "rs = Data (take (nat w) ?src) # rs2" "cb' = cb2" "rest = as2"
    by auto
  let ?bs = "take (nat w) ?src # bs"
  have 1: "rs = map Data ?bs" using eq bs(1) by simp
  have 2: "map length ?bs = wanted (ConsumeCall w t # calls)" using bs(2) later by simp
  have sum: "sum_list (wanted (ConsumeCall w t # calls)) = nat w + ?n" by simp
  have "concat ?bs = take (nat w) ?src @ take ?n (drop (nat w) ?src)"
    by (simp only: concat.simps bs(3) d)
  also have "\<dots> = take (nat w + ?n) ?src" by (simp only: take_add)
  finally have 3: "concat ?bs = take (sum_list (wanted (ConsumeCall w t # calls))) ?src"
    by (simp only: sum)
  have "buffered cb' @ pushedBytes rest = drop ?n (drop (nat w) ?src)"
    using bs(4) eq by (simp only: d)
  also have "\<dots> = drop (nat w + ?n) ?src" by (simp only: drop_drop add.commute)
  finally have 4: "buffered cb' @ pushedBytes rest =
           drop (sum_list (wanted (ConsumeCall w t # calls))) ?src"
    by (simp only: sum)
  from 1 2 3 4 show ?case by blast
qed


text \<open>
  Claim C5 (conservation). Take any script of pushes and timeouts and any run
  of calls on a new buffer: \<^verbatim>\<open>consume\<close> calls of any size and timeout mode, with
  pushes made between them or while they wait. First, nothing is lost or
  invented: the calls use up a prefix of the script, and the returned buffers,
  concatenated in call order, followed by the bytes still buffered, are exactly
  the bytes pushed, in push order; the number of bytes returned plus the size
  counter is the number of bytes pushed; \<^verbatim>\<open>cleanup\<close> discards the buffered bytes.
  Second, the bytes are obtainable: when no wait times out and the calls ask for
  positive sizes that add up to at most the number of bytes the script pushes,
  every call returns a buffer of exactly the size it asked for, these buffers
  are the successive slices of the pushed bytes, and the bytes not asked for are
  still buffered or yet to be pushed; when the sizes add up to all the bytes of
  the script, the returned buffers together are the pushed bytes and the buffer
  is empty. Third, \<^verbatim>\<open>consume(0)\<close> on a buffer that holds bytes returns all of them
  at once.
\<close>

theorem consume_conserves_pushed_bytes:
  "(case callSeq calls new_ChunkBuffer script of
      (rs, cb, rest) \<Rightarrow>
        (\<exists>pushed. script = pushed @ rest \<and>
           concat (map dataOf rs) @ buffered cb = pushedBytes pushed \<and>
           length (concat (map dataOf rs)) + u_size cb = length (pushedBytes pushed)) \<and>
        buffered (cleanup cb) = [] \<and> u_size (cleanup cb) = 0) \<and>
   (Timeout \<notin> set script \<longrightarrow> 0 \<notin> set (wanted calls) \<longrightarrow>
    sum_list (wanted calls) \<le> length (pushedBytes script) \<longrightarrow>
      (case callSeq calls new_ChunkBuffer script of
         (rs, cb, rest) \<Rightarrow>
           (\<exists>bs. rs = map Data bs \<and> map length bs = wanted calls \<and>
              concat bs = take (sum_list (wanted calls)) (pushedBytes script) \<and>
              buffered cb @ pushedBytes rest =
                drop (sum_list (wanted calls)) (pushedBytes script) \<and>
              (sum_list (wanted calls) = length (pushedBytes script) \<longrightarrow>
                 concat bs = pushedBytes script \<and> buffered cb = [] \<and> u_size cb = 0)))) \<and>
   (sizeIsExact start \<longrightarrow> u_size start \<noteq> 0 \<longrightarrow>
      consume 0 throwOnTimeout start later =
        (Data (buffered start), start\<lparr>u_chunks := [], u_size := 0\<rparr>, later))"
proof (intro conjI impI)
  obtain rs cb rest where s: "callSeq calls new_ChunkBuffer script = (rs, cb, rest)"
    by (cases "callSeq calls new_ChunkBuffer script")
  have new: "sizeIsExact new_ChunkBuffer"
    by (simp add: sizeIsExact_def buffered_def new_ChunkBuffer_def)
  have e: "buffered new_ChunkBuffer = []"
    by (simp add: buffered_def new_ChunkBuffer_def)
  from callSeq_takes[OF new s] obtain pushed where p: "script = pushed @ rest"
    "concat (map dataOf rs) @ buffered cb = buffered new_ChunkBuffer @ pushedBytes pushed"
    "sizeIsExact cb" by blast
  have c: "concat (map dataOf rs) @ buffered cb = pushedBytes pushed" using p(2) e by simp
  have "length (concat (map dataOf rs) @ buffered cb) = length (pushedBytes pushed)"
    by (simp only: c)
  then have l: "length (concat (map dataOf rs)) + u_size cb = length (pushedBytes pushed)"
    using p(3) by (simp add: sizeIsExact_def)
  have "\<exists>pushed. script = pushed @ rest \<and>
           concat (map dataOf rs) @ buffered cb = pushedBytes pushed \<and>
           length (concat (map dataOf rs)) + u_size cb = length (pushedBytes pushed)"
    using p(1) c l by blast
  then show "case callSeq calls new_ChunkBuffer script of
      (rs, cb, rest) \<Rightarrow>
        (\<exists>pushed. script = pushed @ rest \<and>
           concat (map dataOf rs) @ buffered cb = pushedBytes pushed \<and>
           length (concat (map dataOf rs)) + u_size cb = length (pushedBytes pushed)) \<and>
        buffered (cleanup cb) = [] \<and> u_size (cleanup cb) = 0"
    by (simp add: s buffered_def cleanup_def)
  assume nt: "Timeout \<notin> set script" and pos: "0 \<notin> set (wanted calls)"
    and enough: "sum_list (wanted calls) \<le> length (pushedBytes script)"
  let ?n = "sum_list (wanted calls)"
  from callSeq_returns[OF new nt pos _ s] enough e obtain bs where
    bs: "rs = map Data bs" "map length bs = wanted calls"
      "concat bs = take ?n (pushedBytes script)"
      "buffered cb @ pushedBytes rest = drop ?n (pushedBytes script)" by auto
  have "?n = length (pushedBytes script) \<longrightarrow>
          concat bs = pushedBytes script \<and> buffered cb = [] \<and> u_size cb = 0"
    using bs(3,4) p(3) by (auto simp: sizeIsExact_def)
  with bs have "\<exists>bs. rs = map Data bs \<and> map length bs = wanted calls \<and>
              concat bs = take (sum_list (wanted calls)) (pushedBytes script) \<and>
              buffered cb @ pushedBytes rest =
                drop (sum_list (wanted calls)) (pushedBytes script) \<and>
              (sum_list (wanted calls) = length (pushedBytes script) \<longrightarrow>
                 concat bs = pushedBytes script \<and> buffered cb = [] \<and> u_size cb = 0)"
    by blast
  then show "case callSeq calls new_ChunkBuffer script of
         (rs, cb, rest) \<Rightarrow>
           (\<exists>bs. rs = map Data bs \<and> map length bs = wanted calls \<and>
              concat bs = take (sum_list (wanted calls)) (pushedBytes script) \<and>
              buffered cb @ pushedBytes rest =
                drop (sum_list (wanted calls)) (pushedBytes script) \<and>
              (sum_list (wanted calls) = length (pushedBytes script) \<longrightarrow>
                 concat bs = pushedBytes script \<and> buffered cb = [] \<and> u_size cb = 0))"
    by (simp add: s)
next
  assume "sizeIsExact start" "u_size start \<noteq> 0"
  then show "consume 0 throwOnTimeout start later =
        (Data (buffered start), start\<lparr>u_chunks := [], u_size := 0\<rparr>, later)"
    by (simp add: consume_def consumeNow_def sizeIsExact_def buffered_def Buffer_concat_exact)
qed

text \<open>
  The theorem at a script of two pushes, of \<^verbatim>\<open>ab\<close> with \<^verbatim>\<open>c\<close> and of \<^verbatim>\<open>de\<close>: a call
  for 1 byte waits for the first push, the second push is made before the next
  call, and the calls for 3 bytes and for 1 byte return \<^verbatim>\<open>bcd\<close> and \<^verbatim>\<open>e\<close>; and at a
  buffer holding \<^verbatim>\<open>ab\<close> and \<^verbatim>\<open>c\<close>, which \<^verbatim>\<open>consume(0)\<close> returns whole.
\<close>

theorem consume_conserves_witness:
  "callSeq [ConsumeCall 1 False, NextPush, ConsumeCall 3 True, ConsumeCall 1 False]
     new_ChunkBuffer [Chunks [''ab'', ''c''], Chunks [''de'']] =
     ([Data ''a'', Data ''bcd'', Data ''e''], \<lparr>u_chunks = [], u_size = 0\<rparr>, []) \<and>
   (\<exists>bs. [Data ''a'', Data ''bcd'', Data ''e''] = map Data bs \<and> map length bs = [1, 3, 1] \<and>
         concat bs = ''abcde'') \<and>
   consume 0 False \<lparr>u_chunks = [''ab'', ''c''], u_size = 3\<rparr> [] =
     (Data ''abc'', \<lparr>u_chunks = [], u_size = 0\<rparr>, [])"
proof -
  let ?calls = "[ConsumeCall 1 False, NextPush, ConsumeCall 3 True, ConsumeCall 1 False]"
  let ?script = "[Chunks [''ab'', ''c''], Chunks [''de'']]"
  let ?cb = "\<lparr>u_chunks = [''ab'', ''c''], u_size = 3\<rparr>"
  have run: "callSeq ?calls new_ChunkBuffer ?script =
     ([Data ''a'', Data ''bcd'', Data ''e''], \<lparr>u_chunks = [], u_size = 0\<rparr>, [])"
    by (simp add: new_ChunkBuffer_def consume_def consumeNow_def push_def Buffer_concat_def
        subarray_def subarrayFrom_def relativeIndex_def)
  have h: "Timeout \<notin> set ?script" "0 \<notin> set (wanted ?calls)"
    "sum_list (wanted ?calls) \<le> length (pushedBytes ?script)" by simp_all
  have c: "sizeIsExact ?cb" "u_size ?cb \<noteq> 0" by (simp_all add: sizeIsExact_def buffered_def)
  note inst = consume_conserves_pushed_bytes[where calls = ?calls and script = ?script and start = ?cb
      and throwOnTimeout = False and later = "[]"]
  from inst[THEN conjunct2, THEN conjunct1, unfolded run prod.case, rule_format, OF h]
  obtain bs where b1: "[Data ''a'', Data ''bcd'', Data ''e''] = map Data bs"
    and b2: "map length bs = wanted ?calls"
    and b3: "concat bs = take (sum_list (wanted ?calls)) (pushedBytes ?script)"
    by (elim exE conjE) (rule that)
  have w: "wanted ?calls = [1, 3, 1]" by simp
  have t: "take (sum_list (wanted ?calls)) (pushedBytes ?script) = ''abcde''" by simp
  have "[Data ''a'', Data ''bcd'', Data ''e''] = map Data bs \<and>
         map length bs = [1, 3, 1] \<and> concat bs = ''abcde''"
    using b1 b2[unfolded w] b3[unfolded t] by (intro conjI)
  then have slices: "\<exists>bs. [Data ''a'', Data ''bcd'', Data ''e''] = map Data bs \<and>
         map length bs = [1, 3, 1] \<and> concat bs = ''abcde''"
    by (rule exI[where x = bs])
  from inst[THEN conjunct2, THEN conjunct2, rule_format, OF c]
  have whole: "consume 0 False ?cb [] = (Data ''abc'', \<lparr>u_chunks = [], u_size = 0\<rparr>, [])"
    by (simp add: buffered_def)
  show ?thesis by (rule conjI[OF run conjI[OF slices whole]])
qed

text \<open>
  Claim C4 (round trip of \<^verbatim>\<open>consume\<close> and \<^verbatim>\<open>giveBack\<close>; \<^verbatim>\<open>giveBack\<close> re-queues at
  the front). The code does not do this: \<^verbatim>\<open>giveBack\<close> assigns \<^verbatim>\<open>[leftovers]\<close> to the
  queue, so whatever was buffered is dropped. With \<^verbatim>\<open>abc\<close> buffered,
  \<^verbatim>\<open>consume(1)\<close> returns \<^verbatim>\<open>a\<close> and leaves \<^verbatim>\<open>bc\<close>; giving \<^verbatim>\<open>a\<close> back leaves only
  \<^verbatim>\<open>a\<close>, of size 1, and a following \<^verbatim>\<open>consume(3)\<close> times out where it would have
  returned \<^verbatim>\<open>abc\<close>.
\<close>

theorem giveBack_replaces_the_queue:
  "giveBack chunk 0 cb = cb\<lparr>u_chunks := [chunk], u_size := length chunk\<rparr> \<and>
   consume 1 False \<lparr>u_chunks = [''abc''], u_size = 3\<rparr> [] =
     (Data ''a'', \<lparr>u_chunks = [''bc''], u_size = 2\<rparr>, []) \<and>
   giveBack ''a'' 0 \<lparr>u_chunks = [''bc''], u_size = 2\<rparr> = \<lparr>u_chunks = [''a''], u_size = 1\<rparr> \<and>
   consume 3 False \<lparr>u_chunks = [''a''], u_size = 1\<rparr> [] =
     (ReturnedFalse, \<lparr>u_chunks = [''a''], u_size = 1\<rparr>, []) \<and>
   consume 3 False \<lparr>u_chunks = [''abc''], u_size = 3\<rparr> [] =
     (Data ''abc'', \<lparr>u_chunks = [], u_size = 0\<rparr>, [])"
  by (simp add: giveBack_def consume_def consumeNow_def Buffer_concat_def subarray_def
      subarrayFrom_def relativeIndex_def)

section \<open>Properties of the Zip decoder\<close>

lemma consumeOrThrow_length:
  "consumeOrThrow w this = Ok b this1 \<Longrightarrow> 0 < w \<Longrightarrow> length b = nat w"
  by (auto simp: consumeOrThrow_def Let_def split: prod.splits consumed.splits dest: consume_length)

lemma readUInt32LE_in_range: "offset + 4 \<le> length buffer \<Longrightarrow> \<exists>v. readUInt32LE buffer offset = Inr v"
  by (simp add: readUInt32LE_def readValue_def)

lemma descriptorAt_in_range:
  "offset + 12 \<le> length buffer \<Longrightarrow>
   \<exists>dd. descriptorAt buffer offset = Inr dd \<and>
        readUInt32LE buffer offset = Inr (dd_crc32 dd) \<and>
        readUInt32LE buffer (offset + 4) = Inr (dd_compressedSize dd) \<and>
        readUInt32LE buffer (offset + 8) = Inr (dd_uncompressedSize dd)"
  by (simp add: descriptorAt_def readUInt32LE_def readValue_def)

lemma crossCheck_id: "crossCheck dd a b this = this"
  by (simp add: crossCheck_def log_def)

lemma giveBack_last4:
  "length buffer = 16 \<Longrightarrow> giveBack buffer 4 cb = cb\<lparr>u_chunks := [drop 12 buffer], u_size := 4\<rparr>"
  by (simp add: giveBack_def subarrayFrom_def relativeIndex_def)

lemmas zip_eval =
  new_ZipExtractStream_def new_ChunkBuffer_def localFileHeader_def
        centralDirectoryBytes_def descriptorBytes_def descriptorSignatureBytes_def consumeOrThrow_def consume_def consumeNow_def push_def
        Buffer_concat_def subarray_def subarrayFrom_def relativeIndex_def readUInt32BE_def
        localFileHeaderSignature_def zipEntry_def parseLocalFileHeader_def fixedPart_def
        readValue_def readBitField_def flagTemplate_def MAX_SAFE_INTEGER_def bitFlag_def
        fetchString_def emit_def zipPipeFileStream_def awaitEndPromise_def buffered_def Let_def
        copyEngine_def inflateWrite_def onData_def onEnd_def giveBack_def

text \<open>
  The block that reads the data descriptor, taken on its own. Take an entry whose
  header sets the data-descriptor flag and whose body has completed, and let the
  read of 16 bytes succeed. Then exactly 16 bytes are read. If their first 4
  bytes are the signature \<^verbatim>\<open>0x504B0708\<close>, the three fields are the little-endian
  32-bit values at offsets 4, 8 and 12 and the staging buffer is left as the read
  left it; otherwise they are the values at offsets 0, 4 and 8 and the staging
  buffer then holds the last 4 of the 16 bytes and nothing else, whatever the
  read had left in it. In both cases the entry ends normally with the descriptor
  emitted, whatever the byte counts \<^verbatim>\<open>dataDecompressed\<close> and \<^verbatim>\<open>decompressedSize\<close> of
  the body are.
\<close>

theorem data_descriptor_is_read_after_the_body:
  assumes header: "parseLocalFileHeader this0 = Ok h thisA"
    and body: "zipPipeFileStream Z createInflateRaw fuel (compressedSize h)
                 (emit (Entry [''name'' \<mapsto> Str (entryName h),
                               ''size'' \<mapsto> Num (int (uncompressedSize h))] True) thisA) =
               Ok (dataDecompressed, decompressedSize) this"
    and expected: "dataDescriptor h \<noteq> 0"
    and read: "consumeOrThrow 16 this = Ok buffer this1"
  shows "length buffer = 16 \<and>
         (\<exists>dd. zipEntry Z createInflateRaw fuel this0 =
                 Ok () (emit (DataDescriptorEvent dd)
                          (if readUInt32BE buffer 0 = Inr dataDescriptorSignature then this1
                           else this1\<lparr>chunkBuffer :=
                                  (chunkBuffer this1)\<lparr>u_chunks := [drop 12 buffer], u_size := 4\<rparr>\<rparr>)) \<and>
               (if readUInt32BE buffer 0 = Inr dataDescriptorSignature
                then readUInt32LE buffer 4 = Inr (dd_crc32 dd) \<and>
                     readUInt32LE buffer 8 = Inr (dd_compressedSize dd) \<and>
                     readUInt32LE buffer 12 = Inr (dd_uncompressedSize dd)
                else readUInt32LE buffer 0 = Inr (dd_crc32 dd) \<and>
                     readUInt32LE buffer 4 = Inr (dd_compressedSize dd) \<and>
                     readUInt32LE buffer 8 = Inr (dd_uncompressedSize dd)))"
proof -
  have len: "length buffer = 16" using consumeOrThrow_length[OF read] by simp
  have entry: "zipEntry Z createInflateRaw fuel this0 =
               readDataDescriptor dataDecompressed decompressedSize this"
    using header body expected by (simp add: zipEntry_def Let_def)
  obtain sig where sig: "readUInt32BE buffer 0 = Inr sig"
    using len by (simp add: readUInt32BE_def)
  show ?thesis
  proof (cases "sig = dataDescriptorSignature")
    case True
    from descriptorAt_in_range[of 4 buffer] len obtain dd where
      dd: "descriptorAt buffer 4 = Inr dd" "readUInt32LE buffer 4 = Inr (dd_crc32 dd)"
        "readUInt32LE buffer 8 = Inr (dd_compressedSize dd)"
        "readUInt32LE buffer 12 = Inr (dd_uncompressedSize dd)" by auto
    have "zipEntry Z createInflateRaw fuel this0 = Ok () (emit (DataDescriptorEvent dd) this1)"
      using read sig True dd(1) by (simp add: entry readDataDescriptor_def crossCheck_id)
    with len sig True dd show ?thesis by auto
  next
    case False
    from descriptorAt_in_range[of 0 buffer] len obtain dd where
      dd: "descriptorAt buffer 0 = Inr dd" "readUInt32LE buffer 0 = Inr (dd_crc32 dd)"
        "readUInt32LE buffer 4 = Inr (dd_compressedSize dd)"
        "readUInt32LE buffer 8 = Inr (dd_uncompressedSize dd)" by auto
    have "zipEntry Z createInflateRaw fuel this0 =
            Ok () (emit (DataDescriptorEvent dd)
                     (this1\<lparr>chunkBuffer :=
                        (chunkBuffer this1)\<lparr>u_chunks := [drop 12 buffer], u_size := 4\<rparr>\<rparr>))"
      using read sig False dd(1) len
      by (simp add: entry readDataDescriptor_def crossCheck_id giveBack_last4 Let_def)
    with len sig False dd show ?thesis by auto
  qed
qed

lemma sample_steps:
  "(case parseLocalFileHeader sampleEntry of
      Ok h thisA \<Rightarrow>
        dataDescriptor h \<noteq> 0 \<and>
        (case zipPipeFileStream copyEngine 5 sampleFuel (compressedSize h)
                (emit (Entry [''name'' \<mapsto> Str (entryName h),
                              ''size'' \<mapsto> Num (int (uncompressedSize h))] True) thisA) of
           Ok (a, b) this \<Rightarrow>
             (case consumeOrThrow 16 this of
                Ok buffer this1 \<Rightarrow> buffer = descriptorBytes 1 5 5 @ centralDirectoryBytes
              | Stop f this1 \<Rightarrow> False)
         | Stop f this \<Rightarrow> False)
    | Stop f thisA \<Rightarrow> False)"
  by (simp add: sampleEntry_def sampleFuel_def zip_eval)

text \<open>
  The theorem at the sample entry: its descriptor has no signature, the 16 bytes
  read end with the central directory signature, and those 4 bytes are what the
  staging buffer holds afterwards.
\<close>

theorem data_descriptor_witness:
  "\<exists>dd. zipEntry copyEngine 5 sampleFuel sampleEntry =
           Ok () (emit (DataDescriptorEvent dd)
             ((stateOf (zipEntry copyEngine 5 sampleFuel sampleEntry))
                \<lparr>emitted := butlast (emitted (stateOf (zipEntry copyEngine 5 sampleFuel sampleEntry)))\<rparr>)) \<and>
        dd = \<lparr>dd_crc32 = 1, dd_compressedSize = 5, dd_uncompressedSize = 5\<rparr> \<and>
        buffered (chunkBuffer (stateOf (zipEntry copyEngine 5 sampleFuel sampleEntry))) = centralDirectoryBytes"
proof -
  from sample_steps obtain h thisA a b this buffer this1 where
    h1: "parseLocalFileHeader sampleEntry = Ok h thisA" and
    h2: "zipPipeFileStream copyEngine 5 sampleFuel (compressedSize h)
                (emit (Entry [''name'' \<mapsto> Str (entryName h),
                              ''size'' \<mapsto> Num (int (uncompressedSize h))] True) thisA) = Ok (a, b) this" and
    h3: "dataDescriptor h \<noteq> 0" and
    h4: "consumeOrThrow 16 this = Ok buffer this1" and
    buf: "buffer = descriptorBytes 1 5 5 @ centralDirectoryBytes"
    by (auto split: run.splits prod.splits)
  from data_descriptor_is_read_after_the_body[OF h1 h2 h3 h4] obtain dd where
    r: "zipEntry copyEngine 5 sampleFuel sampleEntry =
                 Ok () (emit (DataDescriptorEvent dd)
                          (if readUInt32BE buffer 0 = Inr dataDescriptorSignature then this1
                           else this1\<lparr>chunkBuffer :=
                                  (chunkBuffer this1)\<lparr>u_chunks := [drop 12 buffer], u_size := 4\<rparr>\<rparr>))"
    and f: "(if readUInt32BE buffer 0 = Inr dataDescriptorSignature
                then readUInt32LE buffer 4 = Inr (dd_crc32 dd) \<and>
                     readUInt32LE buffer 8 = Inr (dd_compressedSize dd) \<and>
                     readUInt32LE buffer 12 = Inr (dd_uncompressedSize dd)
                else readUInt32LE buffer 0 = Inr (dd_crc32 dd) \<and>
                     readUInt32LE buffer 4 = Inr (dd_compressedSize dd) \<and>
                     readUInt32LE buffer 8 = Inr (dd_uncompressedSize dd))"
    by blast
  have nosig: "readUInt32BE buffer 0 \<noteq> Inr dataDescriptorSignature"
    by (simp add: buf readUInt32BE_def descriptorBytes_def centralDirectoryBytes_def dataDescriptorSignature_def)
  from f nosig have "dd = \<lparr>dd_crc32 = 1, dd_compressedSize = 5, dd_uncompressedSize = 5\<rparr>"
    by (simp add: buf readUInt32LE_def readValue_def descriptorBytes_def centralDirectoryBytes_def)
  moreover have "buffered (chunkBuffer (stateOf (zipEntry copyEngine 5 sampleFuel sampleEntry))) = centralDirectoryBytes"
    using nosig by (simp add: r emit_def buffered_def buf descriptorBytes_def)
  moreover have "zipEntry copyEngine 5 sampleFuel sampleEntry =
           Ok () (emit (DataDescriptorEvent dd)
             ((stateOf (zipEntry copyEngine 5 sampleFuel sampleEntry))
                \<lparr>emitted := butlast (emitted (stateOf (zipEntry copyEngine 5 sampleFuel sampleEntry)))\<rparr>))"
    using nosig by (simp add: r emit_def)
  ultimately show ?thesis by blast
qed

lemma onData_frame:
  "onData chunks (p, this) = (p', this') \<Longrightarrow>
   chunkBuffer this' = chunkBuffer this \<and> arrivals this' = arrivals this \<and>
   bytesWritten p' = bytesWritten p \<and> totalWritten p' = totalWritten p"
  unfolding onData_def
  by (induction chunks arbitrary: p this) (auto simp: emit_def)

lemma onEnd_frame:
  "onEnd ends (p, this) = (p', this') \<Longrightarrow>
   chunkBuffer this' = chunkBuffer this \<and> arrivals this' = arrivals this \<and>
   bytesWritten p' = bytesWritten p \<and> totalWritten p' = totalWritten p"
  by (auto simp: onEnd_def emit_def split: if_splits)

lemma consumeNow_all:
  "consumeNow 0 cb = Some (chunk, cb') \<Longrightarrow> u_chunks cb' = [] \<and> u_size cb' = 0"
  by (auto simp: consumeNow_def split: if_splits)

lemma waitForData_all:
  "waitForData 0 t cb script = (Data chunk, cb', rest) \<Longrightarrow> u_chunks cb' = [] \<and> u_size cb' = 0"
proof (induction "0::int" t cb script rule: waitForData.induct)
  case (3 throwOnTimeout cb chunks script)
  then show ?case
    by (auto simp: Let_def split: if_splits option.splits dest: consumeNow_all)
qed (auto split: if_splits)

lemma consume_all:
  "consume 0 t cb script = (Data chunk, cb', rest) \<Longrightarrow> u_chunks cb' = [] \<and> u_size cb' = 0"
  by (auto simp: consume_def split: option.splits dest: consumeNow_all waitForData_all)

lemma giveBack_surplus:
  "0 < s \<Longrightarrow> s \<le> length chunk \<Longrightarrow>
   giveBack chunk s cb = cb\<lparr>u_chunks := [drop (length chunk - s) chunk], u_size := s\<rparr>"
  by (simp add: giveBack_def subarrayFrom_def relativeIndex_def Let_def nat_diff_distrib' of_nat_diff)

lemma inflateWrite_cases:
  assumes w: "inflateWrite Z chunk p this = (fin, p', this')"
    and inv: "totalWritten p \<le> bytesWritten p"
  shows "arrivals this' = arrivals this \<and>
         (if fin then
            (if bytesWritten p' < totalWritten p' then
               totalWritten p' = totalWritten p + length chunk \<and>
               totalWritten p' - bytesWritten p' \<le> length chunk \<and>
               chunkBuffer this' = (chunkBuffer this)
                 \<lparr>u_chunks := [drop (length chunk - (totalWritten p' - bytesWritten p')) chunk],
                  u_size := totalWritten p' - bytesWritten p'\<rparr>
             else True)
          else chunkBuffer this' = chunkBuffer this \<and>
               totalWritten p' = totalWritten p + length chunk \<and>
               totalWritten p' \<le> bytesWritten p')"
proof (cases "Z (inflate p) chunk")
  case WriteError
  with w inv show ?thesis by (auto simp: inflateWrite_def)
next
  case (Written z n chunks ends)
  obtain p1 this1 where d: "onData chunks (p\<lparr>inflate := z, bytesWritten := bytesWritten p + n\<rparr>, this) = (p1, this1)"
    by (cases "onData chunks (p\<lparr>inflate := z, bytesWritten := bytesWritten p + n\<rparr>, this)")
  obtain p2 this2 where e: "onEnd ends (p1, this1) = (p2, this2)"
    by (cases "onEnd ends (p1, this1)")
  from onData_frame[OF d] onEnd_frame[OF e]
  have fr: "chunkBuffer this2 = chunkBuffer this" "arrivals this2 = arrivals this"
    "bytesWritten p2 = bytesWritten p + n" "totalWritten p2 = totalWritten p" by auto
  let ?p3 = "p2\<lparr>totalWritten := totalWritten p2 + length chunk\<rparr>"
  show ?thesis
  proof (cases "totalWritten ?p3 > bytesWritten ?p3")
    case True
    with w Written d e have r: "fin" "p' = ?p3"
      "this' = this2\<lparr>chunkBuffer := giveBack chunk (totalWritten ?p3 - bytesWritten ?p3) (chunkBuffer this2)\<rparr>"
      by (auto simp: inflateWrite_def Let_def)
    have s: "0 < totalWritten ?p3 - bytesWritten ?p3" "totalWritten ?p3 - bytesWritten ?p3 \<le> length chunk"
      using True fr inv by auto
    show ?thesis using r fr True s giveBack_surplus[OF s] by simp
  next
    case False
    with w Written d e have r: "\<not> fin" "p' = ?p3" "this' = this2"
      by (auto simp: inflateWrite_def Let_def)
    show ?thesis using r fr False by simp
  qed
qed

lemma feedLoop_accounting:
  "sizeIsExact (chunkBuffer this) \<Longrightarrow> feedLoop Z fuel p this = Ok p' this' \<Longrightarrow>
   totalWritten p \<le> bytesWritten p \<Longrightarrow> bytesWritten p' < totalWritten p' \<Longrightarrow>
   \<exists>fed. buffered (chunkBuffer this) @ pushedBytes (arrivals this) =
           fed @ buffered (chunkBuffer this') @ pushedBytes (arrivals this') \<and>
         length fed + totalWritten p = bytesWritten p' \<and>
         length (buffered (chunkBuffer this')) = totalWritten p' - bytesWritten p' \<and>
         sizeIsExact (chunkBuffer this')"
proof (induction fuel arbitrary: p this)
  case 0
  then show ?case by simp
next
  case (Suc fuel)
  obtain r cb rest where c: "consume 0 True (chunkBuffer this) (arrivals this) = (r, cb, rest)"
    by (cases "consume 0 True (chunkBuffer this) (arrivals this)")
  let ?this1 = "this\<lparr>chunkBuffer := cb, arrivals := rest\<rparr>"
  from consume_conserves[OF Suc.prems(1) c]
  have cons: "dataOf r @ buffered cb @ pushedBytes rest =
              buffered (chunkBuffer this) @ pushedBytes (arrivals this)" and ex: "sizeIsExact cb"
    by auto
  show ?case
  proof (cases r)
    case ThrewIOTimeout
    with Suc.prems c show ?thesis by simp
  next
    case ReturnedFalse
    with Suc.prems c show ?thesis by simp
  next
    case (Data chunk)
    from consume_all[OF c[unfolded Data]] have empty: "u_chunks cb = []" "u_size cb = 0" by auto
    obtain fin p1 this2 where w: "inflateWrite Z chunk p ?this1 = (fin, p1, this2)"
      by (cases "inflateWrite Z chunk p ?this1")
    have arr: "arrivals this2 = rest"
      using inflateWrite_cases[OF w Suc.prems(3)] by simp
    have go: "\<not> fin \<Longrightarrow> chunkBuffer this2 = cb \<and>
               totalWritten p1 = totalWritten p + length chunk \<and>
               totalWritten p1 \<le> bytesWritten p1"
      using inflateWrite_cases[OF w Suc.prems(3)] by simp
    have stop: "fin \<Longrightarrow> bytesWritten p1 < totalWritten p1 \<Longrightarrow>
               totalWritten p1 = totalWritten p + length chunk \<and>
               totalWritten p1 - bytesWritten p1 \<le> length chunk \<and>
               chunkBuffer this2 = cb
                 \<lparr>u_chunks := [drop (length chunk - (totalWritten p1 - bytesWritten p1)) chunk],
                  u_size := totalWritten p1 - bytesWritten p1\<rparr>"
      using inflateWrite_cases[OF w Suc.prems(3)] by (auto split: if_splits)
    show ?thesis
    proof (cases fin)
      case True
      with Suc.prems(2) c Data w have res: "p' = p1" "this' = this2" by auto
      with Suc.prems(4) stop True have
        tw: "totalWritten p1 = totalWritten p + length chunk" and
        le: "totalWritten p1 - bytesWritten p1 \<le> length chunk" and
        cb2: "chunkBuffer this2 = cb
                 \<lparr>u_chunks := [drop (length chunk - (totalWritten p1 - bytesWritten p1)) chunk],
                  u_size := totalWritten p1 - bytesWritten p1\<rparr>" by auto
      let ?s = "totalWritten p1 - bytesWritten p1"
      have b: "buffered (chunkBuffer this2) = drop (length chunk - ?s) chunk"
        by (simp add: cb2 buffered_def)
      have src: "buffered (chunkBuffer this) @ pushedBytes (arrivals this) = chunk @ pushedBytes rest"
        using cons Data empty by (simp add: buffered_def)
      have "chunk = take (length chunk - ?s) chunk @ drop (length chunk - ?s) chunk" by simp
      then have "buffered (chunkBuffer this) @ pushedBytes (arrivals this) =
            take (length chunk - ?s) chunk @ buffered (chunkBuffer this2) @ pushedBytes (arrivals this2)"
        using src b arr by (metis append.assoc)
      moreover have "length (take (length chunk - ?s) chunk) + totalWritten p = bytesWritten p1"
        using tw le Suc.prems(4) res by auto
      moreover have "length (buffered (chunkBuffer this2)) = ?s" using b le by simp
      moreover have "sizeIsExact (chunkBuffer this2)" using le by (simp add: sizeIsExact_def buffered_def cb2)
      ultimately show ?thesis using res by blast
    next
      case False
      with Suc.prems(2) c Data w have rec: "feedLoop Z fuel p1 this2 = Ok p' this'" by auto
      from go False have cb2: "chunkBuffer this2 = cb"
        and tw: "totalWritten p1 = totalWritten p + length chunk"
        and inv: "totalWritten p1 \<le> bytesWritten p1" by auto
      have ex2: "sizeIsExact (chunkBuffer this2)" using ex cb2 by simp
      from Suc.IH[OF ex2 rec inv Suc.prems(4)] obtain fed where
        f: "buffered (chunkBuffer this2) @ pushedBytes (arrivals this2) =
           fed @ buffered (chunkBuffer this') @ pushedBytes (arrivals this')"
        "length fed + totalWritten p1 = bytesWritten p'"
        "length (buffered (chunkBuffer this')) = totalWritten p' - bytesWritten p'"
        "sizeIsExact (chunkBuffer this')" by blast
      have src: "buffered (chunkBuffer this) @ pushedBytes (arrivals this) = chunk @ pushedBytes rest"
        using cons Data empty by (simp add: buffered_def)
      have b2: "buffered (chunkBuffer this2) = []" using cb2 empty by (simp add: buffered_def)
      have "buffered (chunkBuffer this) @ pushedBytes (arrivals this) =
            (chunk @ fed) @ buffered (chunkBuffer this') @ pushedBytes (arrivals this')"
        using src f(1) b2 arr by simp
      moreover have "length (chunk @ fed) + totalWritten p = bytesWritten p'"
        using f(2) tw by simp
      ultimately show ?thesis using f(3,4) by blast
    qed
  qed
qed

lemma inflateWrite_stops_on_surplus:
  assumes "Z (inflate p) chunk \<noteq> WriteError"
    and w: "inflateWrite Z chunk p this = (fin, p1, this1)"
  shows "(fin \<longleftrightarrow> bytesWritten p1 < totalWritten p1) \<and>
         totalWritten p1 = totalWritten p + length chunk \<and>
         (\<not> fin \<longrightarrow> chunkBuffer this1 = chunkBuffer this)"
proof -
  from assms(1) obtain z n chunks ends where W: "Z (inflate p) chunk = Written z n chunks ends"
    by (cases "Z (inflate p) chunk") auto
  obtain pa thisa where d: "onData chunks (p\<lparr>inflate := z, bytesWritten := bytesWritten p + n\<rparr>, this) = (pa, thisa)"
    by (cases "onData chunks (p\<lparr>inflate := z, bytesWritten := bytesWritten p + n\<rparr>, this)")
  obtain pb thisb where e: "onEnd ends (pa, thisa) = (pb, thisb)"
    by (cases "onEnd ends (pa, thisa)")
  from onData_frame[OF d] onEnd_frame[OF e]
  have fr: "chunkBuffer thisb = chunkBuffer this"
    "bytesWritten pb = bytesWritten p + n" "totalWritten pb = totalWritten p" by auto
  from w W d e fr show ?thesis
    by (auto simp: inflateWrite_def Let_def split: if_splits)
qed

lemma consumeOrThrow_exact:
  "sizeIsExact (chunkBuffer this) \<Longrightarrow> consumeOrThrow w this = Ok b s \<Longrightarrow>
   sizeIsExact (chunkBuffer s)"
  by (auto simp: consumeOrThrow_def Let_def split: prod.splits consumed.splits
      dest: consume_conserves)

lemma fetchString_exact:
  "sizeIsExact (chunkBuffer this) \<Longrightarrow> fetchString n this = Ok b s \<Longrightarrow>
   sizeIsExact (chunkBuffer s)"
  by (auto simp: fetchString_def Let_def split: prod.splits consumed.splits
      dest: consume_conserves)

lemma parseLocalFileHeader_exact:
  assumes ex: "sizeIsExact (chunkBuffer this)" and run: "parseLocalFileHeader this = Ok h s"
  shows "sizeIsExact (chunkBuffer s)"
proof -
  from run obtain buffer this1 where c1: "consumeOrThrow 26 this = Ok buffer this1"
    by (cases "consumeOrThrow 26 this") (auto simp: parseLocalFileHeader_def)
  from run c1 obtain h0 nameLength extra where fp: "fixedPart buffer = Inr (h0, nameLength, extra)"
    by (cases "fixedPart buffer") (auto simp: parseLocalFileHeader_def)
  from run c1 fp obtain str this2 where fs: "fetchString nameLength this1 = Ok str this2"
    by (cases "fetchString nameLength this1") (auto simp: parseLocalFileHeader_def)
  have e1: "sizeIsExact (chunkBuffer this1)" by (rule consumeOrThrow_exact[OF ex c1])
  have e2: "sizeIsExact (chunkBuffer this2)" by (rule fetchString_exact[OF e1 fs])
  show ?thesis
  proof (cases "extra = 0")
    case True
    with run c1 fp fs have "s = this2" by (simp add: parseLocalFileHeader_def)
    with e2 show ?thesis by simp
  next
    case False
    with run c1 fp fs obtain xs this3 where
      c3: "consumeOrThrow (int extra) this2 = Ok xs this3"
      by (cases "consumeOrThrow (int extra) this2") (auto simp: parseLocalFileHeader_def)
    with run c1 fp fs False have "s = this3"
      by (auto simp: parseLocalFileHeader_def split: sum.splits)
    with consumeOrThrow_exact[OF e2 c3] show ?thesis by simp
  qed
qed

text \<open>
  Claim C2 (bodies of unknown size). Take an entry whose header sets the
  data-descriptor flag and records \<^verbatim>\<open>compressedSize\<close> 0, so that \<^verbatim>\<open>_pipeFileStream\<close>
  takes the branch for unknown sizes. First, for the whole entry: when the loop
  ends with more bytes fed than the decompressor reports as consumed,
  \<^verbatim>\<open>_pipeFileStream\<close> goes on to await the decompressor's end in the state the loop
  left, the entry goes on to read the data descriptor there, and the bytes of
  the source after the header split into the bytes the decompressor consumed, as
  many as it reports, then the bytes now in the staging buffer, as many as the
  surplus, then the bytes that have not arrived yet: the surplus is what the
  next read takes. Second, for one turn of the loop, with no more fed than
  consumed so far and a write the decompressor accepts: the chunk counts as fed
  in full; the promise resolves to \<^verbatim>\<open>done\<close> exactly when the bytes fed now exceed
  the bytes consumed; then the loop ends at once and the staging buffer holds
  exactly the last surplus bytes of the chunk; otherwise the staging buffer is
  left alone, still no more is fed than consumed, and the loop writes the next
  chunk.
\<close>

theorem unknown_size_surplus_is_given_back:
  "(parseLocalFileHeader this0 = Ok h thisA \<longrightarrow>
    dataDescriptor h \<noteq> 0 \<longrightarrow> compressedSize h = 0 \<longrightarrow>
    sizeIsExact (chunkBuffer this0) \<longrightarrow>
    feedLoop Z fuel \<lparr>inflate = createInflateRaw, bytesWritten = 0, totalWritten = 0,
                     sizePushed = 0, endPromise = None\<rparr>
      (emit (Entry [''name'' \<mapsto> Str (entryName h),
                    ''size'' \<mapsto> Num (int (uncompressedSize h))] True) thisA) = Ok p' this' \<longrightarrow>
    bytesWritten p' < totalWritten p' \<longrightarrow>
      zipPipeFileStream Z createInflateRaw fuel (compressedSize h)
        (emit (Entry [''name'' \<mapsto> Str (entryName h),
                      ''size'' \<mapsto> Num (int (uncompressedSize h))] True) thisA) =
        awaitEndPromise p' this' \<and>
      zipEntry Z createInflateRaw fuel this0 =
        (case endPromise p' of
           None \<Rightarrow> Stop Pending this'
         | Some (dataDecompressed, decompressedSize) \<Rightarrow>
             readDataDescriptor dataDecompressed decompressedSize this') \<and>
      (\<exists>fed. buffered (chunkBuffer thisA) @ pushedBytes (arrivals thisA) =
              fed @ buffered (chunkBuffer this') @ pushedBytes (arrivals this') \<and>
            length fed = bytesWritten p' \<and>
            length (buffered (chunkBuffer this')) = totalWritten p' - bytesWritten p' \<and>
            u_size (chunkBuffer this') = totalWritten p' - bytesWritten p')) \<and>
   (consume 0 True (chunkBuffer this) (arrivals this) = (Data chunk, cb, rest) \<longrightarrow>
    Z (inflate p) chunk \<noteq> WriteError \<longrightarrow> totalWritten p \<le> bytesWritten p \<longrightarrow>
    inflateWrite Z chunk p (this\<lparr>chunkBuffer := cb, arrivals := rest\<rparr>) = (fin, p1, this1) \<longrightarrow>
      totalWritten p1 = totalWritten p + length chunk \<and>
      (fin \<longleftrightarrow> bytesWritten p1 < totalWritten p1) \<and>
      (fin \<longrightarrow>
         chunkBuffer this1 =
           cb\<lparr>u_chunks := [drop (length chunk - (totalWritten p1 - bytesWritten p1)) chunk],
              u_size := totalWritten p1 - bytesWritten p1\<rparr>) \<and>
      (\<not> fin \<longrightarrow> chunkBuffer this1 = cb \<and> totalWritten p1 \<le> bytesWritten p1) \<and>
      feedLoop Z (Suc n) p this = (if fin then Ok p1 this1 else feedLoop Z n p1 this1))"
proof (intro conjI impI)
  let ?p0 = "\<lparr>inflate = createInflateRaw, bytesWritten = 0, totalWritten = 0,
                     sizePushed = 0, endPromise = None\<rparr>"
  let ?thisB = "emit (Entry [''name'' \<mapsto> Str (entryName h),
                    ''size'' \<mapsto> Num (int (uncompressedSize h))] True) thisA"
  assume header: "parseLocalFileHeader this0 = Ok h thisA"
    and flag: "dataDescriptor h \<noteq> 0" and unknown: "compressedSize h = 0"
    and exact: "sizeIsExact (chunkBuffer this0)"
    and loop: "feedLoop Z fuel ?p0 ?thisB = Ok p' this'"
    and sur: "bytesWritten p' < totalWritten p'"
  show pipe: "zipPipeFileStream Z createInflateRaw fuel (compressedSize h) ?thisB =
        awaitEndPromise p' this'"
    using unknown loop by (simp add: zipPipeFileStream_def)
  show "zipEntry Z createInflateRaw fuel this0 =
        (case endPromise p' of
           None \<Rightarrow> Stop Pending this'
         | Some (dataDecompressed, decompressedSize) \<Rightarrow>
             readDataDescriptor dataDecompressed decompressedSize this')"
    using header flag pipe
    by (simp add: zipEntry_def Let_def awaitEndPromise_def split: option.splits)
  have ex: "sizeIsExact (chunkBuffer ?thisB)"
    using parseLocalFileHeader_exact[OF exact header] by (simp add: emit_def)
  have "totalWritten ?p0 \<le> bytesWritten ?p0" by simp
  from feedLoop_accounting[OF ex loop this sur] obtain fed where
    "buffered (chunkBuffer ?thisB) @ pushedBytes (arrivals ?thisB) =
           fed @ buffered (chunkBuffer this') @ pushedBytes (arrivals this')"
    "length fed + totalWritten ?p0 = bytesWritten p'"
    "length (buffered (chunkBuffer this')) = totalWritten p' - bytesWritten p'"
    "sizeIsExact (chunkBuffer this')" by blast
  then show "\<exists>fed. buffered (chunkBuffer thisA) @ pushedBytes (arrivals thisA) =
              fed @ buffered (chunkBuffer this') @ pushedBytes (arrivals this') \<and>
            length fed = bytesWritten p' \<and>
            length (buffered (chunkBuffer this')) = totalWritten p' - bytesWritten p' \<and>
            u_size (chunkBuffer this') = totalWritten p' - bytesWritten p'"
    by (auto simp: sizeIsExact_def emit_def)
next
  assume c: "consume 0 True (chunkBuffer this) (arrivals this) = (Data chunk, cb, rest)"
    and a: "Z (inflate p) chunk \<noteq> WriteError"
      "inflateWrite Z chunk p (this\<lparr>chunkBuffer := cb, arrivals := rest\<rparr>) = (fin, p1, this1)"
  from inflateWrite_stops_on_surplus[OF a]
  show "totalWritten p1 = totalWritten p + length chunk"
    "fin = (bytesWritten p1 < totalWritten p1)"
    by auto
  show "feedLoop Z (Suc n) p this = (if fin then Ok p1 this1 else feedLoop Z n p1 this1)"
    using c a(2) by simp
next
  assume a: "Z (inflate p) chunk \<noteq> WriteError"
      "inflateWrite Z chunk p (this\<lparr>chunkBuffer := cb, arrivals := rest\<rparr>) = (fin, p1, this1)"
    and inv: "totalWritten p \<le> bytesWritten p" and fin: "fin"
  from inflateWrite_stops_on_surplus[OF a] fin have sur: "bytesWritten p1 < totalWritten p1"
    by simp
  from inflateWrite_cases[OF a(2) inv] fin sur
  show "chunkBuffer this1 =
           cb\<lparr>u_chunks := [drop (length chunk - (totalWritten p1 - bytesWritten p1)) chunk],
              u_size := totalWritten p1 - bytesWritten p1\<rparr>"
    by simp
next
  assume a: "Z (inflate p) chunk \<noteq> WriteError"
      "inflateWrite Z chunk p (this\<lparr>chunkBuffer := cb, arrivals := rest\<rparr>) = (fin, p1, this1)"
    and inv: "totalWritten p \<le> bytesWritten p" and nfin: "\<not> fin"
  from inflateWrite_cases[OF a(2) inv] nfin
  show "chunkBuffer this1 = cb" "totalWritten p1 \<le> bytesWritten p1"
    by simp_all
qed

lemma split_steps:
  "(case parseLocalFileHeader sampleSplitEntry of
      Ok h thisA \<Rightarrow>
        dataDescriptor h \<noteq> 0 \<and> compressedSize h = 0 \<and>
        buffered (chunkBuffer thisA) @ pushedBytes (arrivals thisA) =
          ''hello'' @ descriptorBytes 1 5 5 @ centralDirectoryBytes \<and>
        (case feedLoop copyEngine sampleFuel
                \<lparr>inflate = 5, bytesWritten = 0, totalWritten = 0, sizePushed = 0,
                   endPromise = None\<rparr>
                (emit (Entry [''name'' \<mapsto> Str (entryName h),
                              ''size'' \<mapsto> Num (int (uncompressedSize h))] True) thisA) of
           Ok p' this' \<Rightarrow>
             bytesWritten p' = 5 \<and> totalWritten p' = 21 \<and> endPromise p' = Some (5, 5) \<and>
             arrivals this' = [] \<and>
             map (observe [''name'']) (emitted this') =
               [SeenEntry [Some (Str ''a'')] True, SeenPush ''hel'', SeenPush ''lo'', SeenEnd]
         | Stop f this' \<Rightarrow> False)
    | Stop f thisA \<Rightarrow> False)"
  by (simp add: sampleSplitEntry_def sampleFuel_def zip_eval)

text \<open>
  The theorem at an entry \<^verbatim>\<open>a\<close> whose body of 5 bytes arrives as \<^verbatim>\<open>hel\<close> and then
  \<^verbatim>\<open>lo\<close> with the data descriptor and the central directory signature: 21 bytes
  are fed in two writes, 5 consumed, and the entry goes on to read the data
  descriptor with the 16 surplus bytes back in the staging buffer.
\<close>

theorem surplus_witness:
  "\<exists>this'. zipEntry copyEngine 5 sampleFuel sampleSplitEntry = readDataDescriptor 5 5 this' \<and>
           map (observe [''name'']) (emitted this') =
             [SeenEntry [Some (Str ''a'')] True, SeenPush ''hel'', SeenPush ''lo'', SeenEnd] \<and>
           buffered (chunkBuffer this') = descriptorBytes 1 5 5 @ centralDirectoryBytes \<and>
           u_size (chunkBuffer this') = 16 \<and> arrivals this' = []"
proof -
  from split_steps obtain h thisA p' this' where
    header: "parseLocalFileHeader sampleSplitEntry = Ok h thisA"
    and flag: "dataDescriptor h \<noteq> 0" and unknown: "compressedSize h = 0"
    and src: "buffered (chunkBuffer thisA) @ pushedBytes (arrivals thisA) =
          ''hello'' @ descriptorBytes 1 5 5 @ centralDirectoryBytes"
    and loop: "feedLoop copyEngine sampleFuel
                \<lparr>inflate = 5, bytesWritten = 0, totalWritten = 0, sizePushed = 0,
                   endPromise = None\<rparr>
                (emit (Entry [''name'' \<mapsto> Str (entryName h),
                              ''size'' \<mapsto> Num (int (uncompressedSize h))] True) thisA) =
              Ok p' this'"
    and p: "bytesWritten p' = 5" "totalWritten p' = 21" "endPromise p' = Some (5, 5)"
    and rest: "arrivals this' = []"
    and seen: "map (observe [''name'']) (emitted this') =
               [SeenEntry [Some (Str ''a'')] True, SeenPush ''hel'', SeenPush ''lo'', SeenEnd]"
    by (auto split: run.splits)
  have exact: "sizeIsExact (chunkBuffer sampleSplitEntry)"
    by (simp add: sampleSplitEntry_def sizeIsExact_def zip_eval)
  have sur: "bytesWritten p' < totalWritten p'" using p by simp
  from unknown_size_surplus_is_given_back[THEN conjunct1, of sampleSplitEntry h thisA copyEngine
      sampleFuel 5 p' this'] header flag unknown exact loop sur
  have entry: "zipEntry copyEngine 5 sampleFuel sampleSplitEntry =
        (case endPromise p' of
           None \<Rightarrow> Stop Pending this'
         | Some (dataDecompressed, decompressedSize) \<Rightarrow>
             readDataDescriptor dataDecompressed decompressedSize this')"
    and split: "\<exists>fed. buffered (chunkBuffer thisA) @ pushedBytes (arrivals thisA) =
              fed @ buffered (chunkBuffer this') @ pushedBytes (arrivals this') \<and>
            length fed = bytesWritten p' \<and>
            length (buffered (chunkBuffer this')) = totalWritten p' - bytesWritten p' \<and>
            u_size (chunkBuffer this') = totalWritten p' - bytesWritten p'"
    by blast+
  from split obtain fed where
    f: "''hello'' @ descriptorBytes 1 5 5 @ centralDirectoryBytes = fed @ buffered (chunkBuffer this')"
    and l: "length fed = 5" and u: "u_size (chunkBuffer this') = 16"
    using src rest p by auto
  have "drop 5 (''hello'' @ descriptorBytes 1 5 5 @ centralDirectoryBytes) =
        drop 5 (fed @ buffered (chunkBuffer this'))" by (simp only: f)
  with l have "buffered (chunkBuffer this') = descriptorBytes 1 5 5 @ centralDirectoryBytes"
    by simp
  with entry p seen u rest show ?thesis by auto
qed

section \<open>The keys of PAX entries\<close>

lemma indexOf_first: "c \<notin> set xs \<Longrightarrow> indexOf (xs @ c # ys) c = int (length xs)"
  by (induction xs) (auto simp: Let_def)

lemma indexOf_range: "indexOf s c < int (length s) \<and> - 1 \<le> indexOf s c"
  by (induction s) (auto simp: Let_def)

lemma indexOf_nth: "0 \<le> indexOf s c \<Longrightarrow> s ! nat (indexOf s c) = c"
proof (induction s)
  case Nil
  then show ?case by simp
next
  case (Cons x xs)
  show ?case
  proof (cases "x = c")
    case True
    then show ?thesis by simp
  next
    case False
    with Cons.prems have nn: "0 \<le> indexOf xs c" by (auto simp: Let_def split: if_splits)
    with False Cons.IH show ?thesis by (simp add: Let_def nat_add_distrib)
  qed
qed

lemma paxLine_of_record:
  assumes "CHR '' '' \<notin> set len" "CHR ''='' \<notin> set len" "CHR ''='' \<notin> set key"
  shows "paxLine (len @ CHR '' '' # key @ CHR ''='' # val) = (CHR '' '' # key, val)"
    and "isPaxRecordLine (len @ CHR '' '' # key @ CHR ''='' # val)"
proof -
  let ?line = "len @ CHR '' '' # key @ CHR ''='' # val"
  have a: "indexOf ?line CHR '' '' = int (length len)"
    using assms(1) by (rule indexOf_first)
  have "CHR ''='' \<notin> set (len @ CHR '' '' # key)" using assms by simp
  from indexOf_first[OF this, of val]
  have b: "indexOf ?line CHR ''='' = int (length len) + 1 + int (length key)" by simp
  show "paxLine ?line = (CHR '' '' # key, val)"
    by (simp add: paxLine_def Let_def a b substring_def substringFrom_def clampIndex_def
        nat_add_distrib min_def max_def)
  show "isPaxRecordLine ?line"
    by (simp add: isPaxRecordLine_def Let_def a b)
qed

lemma record_line_key:
  assumes "isPaxRecordLine line"
  shows "\<exists>key. fst (paxLine line) = CHR '' '' # key"
proof -
  let ?a = "indexOf line CHR '' ''" and ?b = "indexOf line CHR ''=''"
  from assms have ab: "0 \<le> ?a" "?a < ?b" by (auto simp: isPaxRecordLine_def Let_def)
  have bl: "?b < int (length line)" using indexOf_range[of line "CHR ''=''"] by simp
  have k: "fst (paxLine line) = take (nat ?b - nat ?a) (drop (nat ?a) line)"
  proof -
    have "nat ?a \<le> length line" "nat ?b \<le> length line" "nat ?a \<le> nat ?b"
      using ab bl by auto
    then show ?thesis
      using ab by (simp add: paxLine_def Let_def substring_def clampIndex_def min_def max_def)
  qed
  have "nat ?a < length line" using ab bl by simp
  then have "drop (nat ?a) line = line ! nat ?a # drop (Suc (nat ?a)) line"
    by (simp add: Cons_nth_drop_Suc)
  moreover have "line ! nat ?a = CHR '' ''" using ab(1) by (rule indexOf_nth)
  moreover have "0 < nat ?b - nat ?a" using ab by simp
  ultimately show ?thesis using k by (cases "nat ?b - nat ?a") auto
qed

lemma empty_line_key: "paxLine [] = ([], [])"
  by (simp add: paxLine_def substring_def substringFrom_def clampIndex_def)

lemma standard_field_shape: "f \<in> standardFields \<Longrightarrow> f \<noteq> [] \<and> hd f \<noteq> CHR '' ''"
  by (auto simp: standardFields_def headerFields_def)

lemma pax_fold_keys:
  "list_all (\<lambda>line. line = [] \<or> isPaxRecordLine line) ls \<Longrightarrow>
   \<forall>k \<in> dom acc. k = [] \<or> hd k = CHR '' '' \<Longrightarrow>
   \<forall>k \<in> dom (fold (\<lambda>line paxEntries. case paxLine line of (key, val) \<Rightarrow> assign key val paxEntries) ls acc).
      k = [] \<or> hd k = CHR '' ''"
proof (induction ls arbitrary: acc)
  case Nil
  then show ?case by simp
next
  case (Cons l ls)
  obtain key val where kv: "paxLine l = (key, val)" by (cases "paxLine l")
  have "key = [] \<or> hd key = CHR '' ''"
  proof (cases "l = []")
    case True
    with kv show ?thesis by (simp add: empty_line_key)
  next
    case False
    with Cons.prems(1) have "isPaxRecordLine l" by simp
    from record_line_key[OF this] kv show ?thesis by auto
  qed
  then have "\<forall>k \<in> dom (assign key val acc). k = [] \<or> hd k = CHR '' ''"
    using Cons.prems(2) by (auto simp: assign_def split: if_splits)
  from Cons.IH[OF _ this] Cons.prems(1) show ?case by (simp add: kv)
qed

text \<open>
  Claim C10 (PAX keys keep their leading space). For a line made of a length
  without space or \<^verbatim>\<open>=\<close>, a space, a key without \<^verbatim>\<open>=\<close>, a \<^verbatim>\<open>=\<close> and a value, the
  stored key is the space followed by the key, and it is not the name of a
  standard field. For a PAX text all of whose lines are such lines or empty,
  every stored key is empty or begins with a space, no standard field is among
  the keys, and spreading the entries over any header object leaves the values
  of its standard fields as they were.
\<close>

theorem pax_keys_never_name_a_standard_field:
  "(CHR '' '' \<notin> set len \<and> CHR ''='' \<notin> set len \<and> CHR ''='' \<notin> set key \<longrightarrow>
      paxLine (len @ CHR '' '' # key @ CHR ''='' # val) = (CHR '' '' # key, val) \<and>
      isPaxRecordLine (len @ CHR '' '' # key @ CHR ''='' # val) \<and>
      CHR '' '' # key \<notin> standardFields) \<and>
   (list_all (\<lambda>line. line = [] \<or> isPaxRecordLine line) (split text CHR 0x0A) \<longrightarrow>
      (\<forall>k \<in> dom (paxEntriesOfText text). k = [] \<or> hd k = CHR '' '') \<and>
      (\<forall>f \<in> standardFields. paxEntriesOfText text f = None \<and>
                              (h ++ paxEntriesOfText text) f = h f))"
proof (intro conjI impI)
  assume c: "CHR '' '' \<notin> set len \<and> CHR ''='' \<notin> set len \<and> CHR ''='' \<notin> set key"
  then show "paxLine (len @ CHR '' '' # key @ CHR ''='' # val) = (CHR '' '' # key, val)"
    by (simp add: paxLine_of_record)
  from c show "isPaxRecordLine (len @ CHR '' '' # key @ CHR ''='' # val)"
    by (simp add: paxLine_of_record)
  show "CHR '' '' # key \<notin> standardFields"
    using standard_field_shape[of "CHR '' '' # key"] by auto
next
  assume l: "list_all (\<lambda>line. line = [] \<or> isPaxRecordLine line) (split text CHR 0x0A)"
  have keys: "\<forall>k \<in> dom (paxEntriesOfText text). k = [] \<or> hd k = CHR '' ''"
    unfolding paxEntriesOfText_def using pax_fold_keys[OF l, of Map.empty] by simp
  then show "\<forall>k \<in> dom (paxEntriesOfText text). k = [] \<or> hd k = CHR '' ''" .
  show "\<forall>f \<in> standardFields. paxEntriesOfText text f = None \<and>
                              (h ++ paxEntriesOfText text) f = h f"
  proof
    fix f assume f: "f \<in> standardFields"
    from standard_field_shape[OF f] keys have "f \<notin> dom (paxEntriesOfText text)" by blast
    then have "paxEntriesOfText text f = None" by blast
    then show "paxEntriesOfText text f = None \<and> (h ++ paxEntriesOfText text) f = h f"
      by (simp add: map_add_def)
  qed
qed

text \<open>
  The theorem at a PAX text that carries \<^verbatim>\<open>path\<close> and \<^verbatim>\<open>size\<close>: the header's \<^verbatim>\<open>size\<close>
  stays 0, and the PAX value is stored under the key \<^verbatim>\<open>size\<close> with a leading
  space.
\<close>

theorem pax_keys_witness:
  "paxLine ''13 path=abcd'' = ('' path'', ''abcd'') \<and>
   '' path'' \<notin> standardFields \<and>
   ([''name'' \<mapsto> Str ''file'', ''size'' \<mapsto> Num 0] ++
      paxEntriesOfText ''13 path=abcd\<newline>15 size=123456\<newline>'') ''size'' = Some (Num 0) \<and>
   paxEntriesOfText ''13 path=abcd\<newline>15 size=123456\<newline>'' '' size'' = Some (Str ''123456'')"
proof -
  have c: "CHR '' '' \<notin> set ''13'' \<and> CHR ''='' \<notin> set ''13'' \<and> CHR ''='' \<notin> set ''path''"
    by simp
  have l: "list_all (\<lambda>line. line = [] \<or> isPaxRecordLine line)
             (split ''13 path=abcd\<newline>15 size=123456\<newline>'' CHR 0x0A)"
    by (simp add: isPaxRecordLine_def)
  have s: "''size'' \<in> standardFields" by (simp add: standardFields_def headerFields_def)
  have v: "paxEntriesOfText ''13 path=abcd\<newline>15 size=123456\<newline>'' '' size'' = Some (Str ''123456'')"
    by (simp add: paxEntriesOfText_def paxLine_def substring_def substringFrom_def clampIndex_def assign_def)
  from pax_keys_never_name_a_standard_field[of "''13''" "''path''" "''abcd''"
      "''13 path=abcd\<newline>15 size=123456\<newline>''" "[''name'' \<mapsto> Str ''file'', ''size'' \<mapsto> Num 0]"] c l s v
  show ?thesis by simp
qed

section \<open>Faults and the result of the worker\<close>















section \<open>Further properties of the decoders\<close>

text \<open>
  \<^verbatim>\<open>giveBack\<close> after a \<^verbatim>\<open>consume\<close> that emptied the queue: when the call
  asked for everything (\<^verbatim>\<open>sizeWanted\<close> 0) or for exactly the bytes held, giving
  the returned chunk back restores the bytes and the size the buffer had.
\<close>

theorem giveBack_restores_an_emptied_buffer:
  assumes "sizeIsExact cb"
    and "sizeWanted = 0 \<or> sizeWanted = int (u_size cb)"
    and "consumeNow sizeWanted cb = Some (chunk, cb')"
  shows "buffered (giveBack chunk 0 cb') = buffered cb \<and>
         u_size (giveBack chunk 0 cb') = u_size cb \<and>
         sizeIsExact (giveBack chunk 0 cb')"
  using assms
  by (auto simp: consumeNow_def giveBack_def subarrayFrom_def relativeIndex_def buffered_def
      sizeIsExact_def Buffer_concat_exact split: if_splits)

text \<open>
  The property at a queue of two chunks holding \<^verbatim>\<open>abc\<close>, consumed whole.
\<close>

theorem giveBack_restores_witness:
  "buffered (giveBack ''abc'' 0 \<lparr>u_chunks = [], u_size = 0\<rparr>) = ''abc'' \<and>
   u_size (giveBack ''abc'' 0 \<lparr>u_chunks = [], u_size = 0\<rparr>) = 3"
proof -
  let ?cb = "\<lparr>u_chunks = [''ab'', ''c''], u_size = 3\<rparr>"
  have a: "sizeIsExact ?cb" by (simp add: sizeIsExact_def buffered_def)
  have b: "(3::int) = 0 \<or> 3 = int (u_size ?cb)" by simp
  have c: "consumeNow 3 ?cb = Some (''abc'', \<lparr>u_chunks = [], u_size = 0\<rparr>)"
    by (simp add: consumeNow_def Buffer_concat_def)
  from giveBack_restores_an_emptied_buffer[OF a b c]
  show ?thesis by (simp add: buffered_def)
qed

text \<open>
  The high bit of a byte, and the range of a byte.
\<close>

lemma high_bit: "n < 256 \<Longrightarrow> (drop_bit 7 n AND 1 \<noteq> 0) = (128 \<le> (n::nat))"
proof -
  assume "n < 256"
  then have "n div 128 < 2" by simp
  then have "n div 128 = 0 \<or> n div 128 = 1" by linarith
  moreover have "(n div 128 = 1) = (128 \<le> n)" using \<open>n < 256\<close> by auto
  ultimately show ?thesis by (auto simp: drop_bit_eq_div)
qed

lemma of_char_bound: "(of_char c :: nat) < 256"
  by (cases c) (simp add: numeral_eq_Suc)

text \<open>
  A header field whose first byte has the high bit set is read as a binary
  number: a field under 8 bytes throws, otherwise the last 8 bytes are read as
  a big-endian unsigned integer, which throws when it is over 53 bits and is
  the field's value otherwise; the field no longer counts as all zero.
\<close>

theorem leading_high_bit_selects_the_binary_branch:
  assumes "offset < length buffer" and "0 < size'"
    and "128 \<le> (of_char (buffer ! offset) :: nat)"
  shows "entry buffer (offset, allZero) size' isOctal =
     (if size' * 8 < 64 then Inl (Threw BinaryFieldUnder64Bits)
      else (case readBigUInt64BE buffer (offset + size' - 8) of
              Inl f \<Rightarrow> Inl f
            | Inr val \<Rightarrow>
                if val > MAX_SAFE_INTEGER \<or> val < MIN_SAFE_INTEGER
                then Inl (Threw BinaryValueOver53Bits)
                else Inr (Num val, offset + size', False)))"
proof -
  have "entryLoop buffer offset size' 0 = Inr BinaryValue"
    using assms high_bit[OF of_char_bound, of "buffer ! offset"]
    by (simp add: readUInt8_def)
  then show ?thesis by (simp add: entry_def)
qed

text \<open>
  The property at a 12-byte field holding 258 and at an 8-byte field whose
  value is over 53 bits.
\<close>

theorem leading_high_bit_witness:
  "entry ([CHR 0x80, CHR 0x00, CHR 0x00, CHR 0x00, CHR 0x00, CHR 0x00, CHR 0x00, CHR 0x00,
      CHR 0x00, CHR 0x00, CHR 0x01, CHR 0x02])
     (0, True) 12 True = Inr (Num 258, 12, False) \<and>
   entry [CHR 0x80, CHR 0x00, CHR 0x00, CHR 0x00, CHR 0x00, CHR 0x00, CHR 0x00, CHR 0x05]
     (0, True) 8 True = Inl (Threw BinaryValueOver53Bits)"
proof -
  let ?b = "[CHR 0x80, CHR 0x00, CHR 0x00, CHR 0x00, CHR 0x00, CHR 0x00, CHR 0x00, CHR 0x00,
      CHR 0x00, CHR 0x00, CHR 0x01, CHR 0x02]"
  let ?c = "[CHR 0x80, CHR 0x00, CHR 0x00, CHR 0x00, CHR 0x00, CHR 0x00, CHR 0x00, CHR 0x05]"
  have b: "0 < length ?b" "(0::nat) < 12" "128 \<le> (of_char (?b ! 0) :: nat)" by simp_all
  have c: "0 < length ?c" "(0::nat) < 8" "128 \<le> (of_char (?c ! 0) :: nat)" by simp_all
  from leading_high_bit_selects_the_binary_branch[OF b, of True True]
  have x: "entry ?b (0, True) 12 True = Inr (Num 258, 12, False)"
    by (simp add: readBigUInt64BE_def MAX_SAFE_INTEGER_def MIN_SAFE_INTEGER_def)
  from leading_high_bit_selects_the_binary_branch[OF c, of True True]
  have y: "entry ?c (0, True) 8 True = Inl (Threw BinaryValueOver53Bits)"
    by (simp add: readBigUInt64BE_def MAX_SAFE_INTEGER_def MIN_SAFE_INTEGER_def)
  show ?thesis by (rule conjI[OF x y])
qed

text \<open>
  The aligned size covers the size, and \<^verbatim>\<open>consume\<close> on a buffer that holds enough.
\<close>

lemma alignTo512_covers: "n \<le> alignTo512 n"
proof -
  have "(- n) div 512 * 512 = - n - (- n) mod 512" by (simp add: minus_mod_eq_div_mult [symmetric])
  moreover have "0 \<le> (- n) mod 512" by simp
  ultimately show ?thesis by (simp add: alignTo512_def)
qed

lemma consumeNow_enough:
  assumes "0 < w" and "w \<le> int (u_size cb)" and "sizeIsExact cb"
  shows "\<exists>cb'. consumeNow w cb = Some (take (nat w) (buffered cb), cb') \<and>
               buffered cb' = drop (nat w) (buffered cb)"
  using assms
  by (auto simp: consumeNow_def Let_def sizeIsExact_def buffered_def Buffer_concat_exact
      subarray_def subarrayFrom_def relativeIndex_def min_def)

text \<open>
  The body of a Tar entry of positive size whose aligned bytes are already
  in the staging buffer: \<^verbatim>\<open>_pipeFileStream\<close> returns after one turn of its loop,
  the file stream is pushed exactly the first \<^verbatim>\<open>size\<close> bytes and then ended, the
  padding up to the 512-byte boundary is consumed and nothing is waited for.
\<close>

theorem buffered_body_is_forwarded_and_ended:
  assumes pos: "0 < n"
    and enough: "alignTo512 n \<le> int (u_size (chunkBuffer this))"
    and exact: "sizeIsExact (chunkBuffer this)"
    and notFalse: "\<not> mayLooselyEqualFalse (take (nat (alignTo512 n)) (buffered (chunkBuffer this)))"
  shows "\<exists>this'. pipeFileStream (Suc fuel) (Some (Num n)) this = Ok () this' \<and>
           emitted this' =
             emitted this @ [FilePush (take (nat n) (buffered (chunkBuffer this))), FileEnd] \<and>
           buffered (chunkBuffer this') =
             drop (nat (alignTo512 n)) (buffered (chunkBuffer this)) \<and>
           arrivals this' = arrivals this"
proof -
  let ?a = "alignTo512 n"
  let ?data = "buffered (chunkBuffer this)"
  have a: "n \<le> ?a" "0 < ?a" using alignTo512_covers[of n] pos by auto
  from consumeNow_enough[OF a(2) enough exact] obtain cb' where
    c: "consumeNow ?a (chunkBuffer this) = Some (take (nat ?a) ?data, cb')"
    and rest: "buffered cb' = drop (nat ?a) ?data" by blast
  have len: "length ?data = u_size (chunkBuffer this)" using exact by (simp add: sizeIsExact_def)
  have tl: "length (take (nat ?a) ?data) = nat ?a" using enough len by simp
  have push: "subarray (take (nat ?a) ?data) 0 n = take (nat n) ?data"
    using a pos tl by (simp add: subarray_def relativeIndex_def min_def)
  have pl: "length (take (nat n) ?data) = nat n" using a enough len by simp
  have wanted: "(if int (u_size (chunkBuffer this)) +
               int (case writableLengths this of [] \<Rightarrow> 0 | w # ws \<Rightarrow> w) \<ge> ?a
            then ?a
            else int (u_size (chunkBuffer this)) +
                 int (case writableLengths this of [] \<Rightarrow> 0 | w # ws \<Rightarrow> w)) = ?a"
    using enough by simp
  have "pipeLoop (Suc fuel) n ?a this =
        Ok () (emit FileEnd (emit (FilePush (take (nat n) ?data))
                 (this\<lparr>chunkBuffer := cb', arrivals := arrivals this,
                        writableLengths := tl (writableLengths this)\<rparr>)))"
    using a pos notFalse len enough
    by (simp add: Let_def wanted consume_def c tl push pl del: pipeLoop.simps
        add: pipeLoop.simps[of "Suc fuel"] pipeLoop.simps[of fuel _ 0])
  then show ?thesis
    using rest by (simp add: pipeFileStream_def emit_def)
qed

text \<open>
  The property at a body of 3 bytes, padded to 512.
\<close>

theorem buffered_body_witness:
  "emitted (stateOf (pipeFileStream (Suc 0) (Some (Num 3))
      ((new_TarExtractStream [] [])
         \<lparr>chunkBuffer := \<lparr>u_chunks = [pad 512 ''abc''], u_size = 512\<rparr>\<rparr>))) =
   [FilePush ''abc'', FileEnd]"
proof -
  let ?s = "(new_TarExtractStream [] [])
         \<lparr>chunkBuffer := \<lparr>u_chunks = [pad 512 ''abc''], u_size = 512\<rparr>\<rparr>"
  have al: "alignTo512 3 = 512" by (simp add: alignTo512_def)
  have a: "(0::int) < 3" by simp
  have b: "alignTo512 3 \<le> int (u_size (chunkBuffer ?s))" by (simp add: al)
  have c: "sizeIsExact (chunkBuffer ?s)"
    by (simp add: sizeIsExact_def buffered_def pad_def)
  have d: "\<not> mayLooselyEqualFalse (take (nat (alignTo512 3)) (buffered (chunkBuffer ?s)))"
    by (simp add: al buffered_def Buffer_concat_def pad_def mayLooselyEqualFalse_def
        zeroLiteralOrSpace_def)
  from buffered_body_is_forwarded_and_ended[OF a b c d, of 0]
  show ?thesis
    by (auto simp: buffered_def Buffer_concat_def pad_def new_TarExtractStream_def)
qed

text \<open>
  \<^verbatim>\<open>_parseHeader\<close> and \<^verbatim>\<open>_parsePaxEntries\<close> leave \<^verbatim>\<open>_globalHeader\<close> as it is, and a
  parsed header carries every pair of \<^verbatim>\<open>_globalHeader\<close>.
\<close>

lemma parseHeader_keeps_globalHeader:
  "parseHeader this = Ok r this' \<Longrightarrow> globalHeader this' = globalHeader this"
  by (auto simp: parseHeader_def Let_def split: prod.splits consumed.splits if_splits sum.splits)

lemma parsePaxEntries_keeps_globalHeader:
  "parsePaxEntries v this = Ok r this' \<Longrightarrow> globalHeader this' = globalHeader this"
  by (auto simp: parsePaxEntries_def Let_def split: prod.splits consumed.splits if_splits
      option.splits)

lemma parseHeader_carries_globalHeader:
  "parseHeader this = Ok (Some h) this' \<Longrightarrow> globalHeader this k = Some v \<Longrightarrow> h k = Some v"
  by (auto simp: parseHeader_def Let_def split: prod.splits consumed.splits if_splits sum.splits)

text \<open>
  A \<^verbatim>\<open>g\<close> or \<^verbatim>\<open>x\<close> header followed by a header: the pairs of the PAX body
  are merged into the header that follows and override its fields; only a \<^verbatim>\<open>g\<close>
  header changes \<^verbatim>\<open>_globalHeader\<close>, which then is exactly the pairs of the body;
  and every header parsed next carries the pairs of \<^verbatim>\<open>_globalHeader\<close>.
\<close>

theorem pax_pairs_are_merged_into_the_header_that_follows:
  assumes tf: "h ''typeflag'' = Some (Str ''g'') \<or> h ''typeflag'' = Some (Str ''x'')"
    and pax: "parsePaxEntries (h ''size'') this = Ok paxEntries this1"
    and nxt: "parseHeader (if h ''typeflag'' = Some (Str ''g'')
                           then this1\<lparr>globalHeader := paxEntries\<rparr> else this1) =
              Ok (Some next) this2"
  shows "paxSwitch h this = Ok (next ++ paxEntries) this2 \<and>
         (\<forall>k v. paxEntries k = Some v \<longrightarrow> (next ++ paxEntries) k = Some v) \<and>
         (\<forall>k. paxEntries k = None \<longrightarrow> (next ++ paxEntries) k = next k) \<and>
         globalHeader this2 =
           (if h ''typeflag'' = Some (Str ''g'') then paxEntries else globalHeader this) \<and>
         (\<forall>later this3 k v. parseHeader this2 = Ok (Some later) this3 \<longrightarrow>
            globalHeader this2 k = Some v \<longrightarrow> later k = Some v)"
proof -
  have run: "paxSwitch h this = Ok (next ++ paxEntries) this2"
    using tf pax nxt by (simp add: paxSwitch_def Let_def)
  have g: "globalHeader this2 =
           (if h ''typeflag'' = Some (Str ''g'') then paxEntries else globalHeader this)"
    using parseHeader_keeps_globalHeader[OF nxt] parsePaxEntries_keeps_globalHeader[OF pax]
    by (simp split: if_splits)
  have later: "\<forall>later this3 k v. parseHeader this2 = Ok (Some later) this3 \<longrightarrow>
            globalHeader this2 k = Some v \<longrightarrow> later k = Some v"
    using parseHeader_carries_globalHeader by blast
  show ?thesis using run g later by (simp add: map_add_def)
qed

text \<open>
  The property at an \<^verbatim>\<open>x\<close> header whose body gives \<^verbatim>\<open>path\<close>, followed by the header
  of a file.
\<close>

theorem pax_pairs_witness:
  "(case paxSwitch [''typeflag'' \<mapsto> Str ''x'', ''size'' \<mapsto> Num 13]
           (new_TarExtractStream
              [Chunks [pad 512 (''13 path=abcd'' @ [CHR 0x0A])],
               Chunks [tarRecord ''file'' ''00000000000'' ''0'']] []) of
      Ok merged t \<Rightarrow> merged '' path'' = Some (Str ''abcd'') \<and> merged ''name'' = Some (Str ''file'')
    | Stop f t \<Rightarrow> False)"
proof -
  let ?h = "[''typeflag'' \<mapsto> Str ''x'', ''size'' \<mapsto> Num 13]"
  let ?text = "''13 path=abcd'' @ [CHR 0x0A]"
  let ?file = "tarRecord ''file'' ''00000000000'' ''0''"
  let ?s0 = "new_TarExtractStream [Chunks [pad 512 ?text], Chunks [?file]] []"
  let ?s1 = "new_TarExtractStream [Chunks [?file]] []"
  let ?pe = "paxEntriesOfText ?text"
  have tf: "?h ''typeflag'' = Some (Str ''g'') \<or> ?h ''typeflag'' = Some (Str ''x'')" by simp
  have pax: "parsePaxEntries (?h ''size'') ?s0 = Ok ?pe ?s1"
    by (simp add: parsePaxEntries_def alignTo512_def consume_def consumeNow_def
        new_TarExtractStream_def new_ChunkBuffer_def push_def Buffer_concat_def pad_def
        mayLooselyEqualFalse_def zeroLiteralOrSpace_def subarray_def relativeIndex_def)
  have "(case parseHeader ?s1 of Ok (Some h) t \<Rightarrow> h ''name'' = Some (Str ''file'')
         | _ \<Rightarrow> False)"
    by code_simp
  then obtain nx s2 where nxt': "parseHeader ?s1 = Ok (Some nx) s2"
    and name: "nx ''name'' = Some (Str ''file'')"
    by (auto split: run.splits option.splits)
  have nxt: "parseHeader (if ?h ''typeflag'' = Some (Str ''g'')
                          then ?s1\<lparr>globalHeader := ?pe\<rparr> else ?s1) = Ok (Some nx) s2"
    using nxt' by simp
  have path: "?pe '' path'' = Some (Str ''abcd'')"
    by (simp add: paxEntriesOfText_def paxLine_def substring_def substringFrom_def
        clampIndex_def assign_def)
  have noname: "?pe ''name'' = None"
    by (simp add: paxEntriesOfText_def paxLine_def substring_def substringFrom_def
        clampIndex_def assign_def)
  have r: "paxSwitch ?h ?s0 = Ok (nx ++ ?pe) s2"
    using pax_pairs_are_merged_into_the_header_that_follows[OF tf pax nxt] by (rule conjunct1)
  show ?thesis unfolding r using path noname name by (simp add: map_add_def)
qed

section \<open>Runs of the Tar decoder\<close>

text \<open>
  Claim C3 (a header without \<^verbatim>\<open>linkname\<close> gets an entry channel that receives the
  first \<^verbatim>\<open>size\<close> bytes and then the end marker, for every size including 0). The
  code does not end the channel of an empty file: \<^verbatim>\<open>fileStream.push(null)\<close> stands
  inside the \<^verbatim>\<open>while (bytesToConsume)\<close> loop, which is not entered for size 0. So
  \<^verbatim>\<open>_pipeFileStream\<close> returns with nothing emitted, and the run over the header of
  an empty file \<^verbatim>\<open>empty\<close> followed by the end-of-archive record emits the entry
  with its channel and no end marker.
\<close>

theorem empty_file_channel_is_never_ended:
  "pipeFileStream fuel (Some (Num 0)) this = Ok () this \<and>
   summary [''name'', ''size''] (worker 2 (new_TarExtractStream
      [Chunks [tarRecord ''empty'' ''00000000000'' ''0''], Chunks [pad 512 []]] [])) =
     (None, [SeenEntry [Some (Str ''empty''), Some (Num 0)] True], [])"
proof -
  have general: "pipeFileStream fuel (Some (Num 0)) this = Ok () this"
    by (simp add: pipeFileStream_def alignTo512_def)
  have run: "summary [''name'', ''size''] (worker 2 (new_TarExtractStream
      [Chunks [tarRecord ''empty'' ''00000000000'' ''0''], Chunks [pad 512 []]] [])) =
     (None, [SeenEntry [Some (Str ''empty''), Some (Num 0)] True], [])"
    by code_simp
  show ?thesis by (rule conjI[OF general run])
qed

text \<open>
  Claim C6 (a header field is read as a binary number exactly when its leading
  byte has the high bit set). In the code the test for the high bit stands inside
  the loop over the bytes of the field, before the test for NUL, so every byte up
  to the first NUL is tested. The 100-byte name field holding the UTF-8 bytes of
  \<^verbatim>\<open>A\<close>, \<^verbatim>\<open>e\<close> with acute accent, \<^verbatim>\<open>.txt\<close> has a leading byte without the high bit;
  \<^verbatim>\<open>entry\<close> returns the number 0 read from the last 8 bytes of the field, and the
  decoder emits the entry with \<^verbatim>\<open>name\<close> 0.
\<close>

theorem non_ascii_name_is_read_as_a_number:
  "entry (pad 100 [CHR ''A'', CHR 0xC3, CHR 0xA9, CHR ''.'', CHR ''t'', CHR ''x'', CHR ''t''])
      (0, True) 100 False = Inr (Num 0, 100, False) \<and>
   summary [''name''] (worker 2 (new_TarExtractStream
      [Chunks [tarRecord [CHR ''A'', CHR 0xC3, CHR 0xA9, CHR ''.'', CHR ''t'', CHR ''x'', CHR ''t'']
                 ''00000000000'' ''0''],
       Chunks [pad 512 []]] [])) =
     (None, [SeenEntry [Some (Num 0)] True], [])"
  by code_simp

text \<open>
  Claim C7 (the pairs of a \<^verbatim>\<open>g\<close> header are merged into every later header, those
  of an \<^verbatim>\<open>x\<close> header into the next header only, where they take precedence). The
  \<^verbatim>\<open>switch\<close> on the typeflag runs once per turn of the worker's loop, on the header
  read at the top of the turn; the header read inside the \<^verbatim>\<open>case\<close> is not looked at
  again. In the archive below a \<^verbatim>\<open>g\<close> header (\<^verbatim>\<open>path=abcd\<close>) is followed by an \<^verbatim>\<open>x\<close>
  header (\<^verbatim>\<open>path=efgh\<close>) and the header of \<^verbatim>\<open>file\<close>. The decoder emits the \<^verbatim>\<open>x\<close>
  header as an entry and its PAX records as that entry's content, and the header
  of \<^verbatim>\<open>file\<close> carries the global value \<^verbatim>\<open>abcd\<close>, not the per-entry value \<^verbatim>\<open>efgh\<close>.
  The observed properties are \<^verbatim>\<open>name\<close>, \<^verbatim>\<open>typeflag\<close> and the PAX key, which is
  \<^verbatim>\<open>path\<close> with a leading space.
\<close>

theorem per_entry_pax_after_global_pax_is_not_merged:
  "summary [''name'', ''typeflag'', '' path''] (worker 4 (new_TarExtractStream
     [Chunks [tarRecord ''g'' ''00000000015'' ''g''], Chunks [pad 512 ''13 path=abcd\<newline>''],
      Chunks [tarRecord ''x'' ''00000000015'' ''x''], Chunks [pad 512 ''13 path=efgh\<newline>''],
      Chunks [tarRecord ''file'' ''00000000000'' ''0''], Chunks [pad 512 []]] [])) =
     (None,
      [SeenEntry [Some (Str ''x''), Some (Str ''x''), Some (Str ''abcd'')] True,
       SeenPush ''13 path=efgh\<newline>'', SeenEnd,
       SeenEntry [Some (Str ''file''), Some (Str ''0''), Some (Str ''abcd'')] True],
      [])"
  by code_simp

section \<open>Runs of the Zip decoder\<close>

text \<open>
  Claim C1 (a body with a nonzero \<^verbatim>\<open>compressedSize\<close> is fed to the decompressor,
  its output forwarded, and the channel ended). The only code of
  \<^verbatim>\<open>_pipeFileStream\<close> that writes to the decompressor stands under
  \<^verbatim>\<open>if (compressedSize == 0)\<close>; the loop for a known size is commented out. For a
  nonzero size the function creates the decompressor and awaits its \<^verbatim>\<open>'end'\<close>,
  which cannot come: nothing is fed, nothing is pushed into the channel, and the
  worker stays pending. In the run below the entry \<^verbatim>\<open>a\<close> declares 5 compressed
  bytes; they stay in the staging buffer with the bytes that follow them.
\<close>

theorem known_size_body_is_never_fed:
  "zipPipeFileStream Z createInflateRaw fuel (Suc n) this = Stop Pending this \<and>
   summary [''name'', ''size''] (zipWorker copyEngine 5 2 True
     (new_ZipExtractStream
        [Chunks [localFileHeader 0 5 5 ''a'' @ ''hello'' @ centralDirectoryBytes]])) =
     (Some Pending, [SeenEntry [Some (Str ''a''), Some (Num 5)] True],
      ''hello'' @ centralDirectoryBytes)"
proof -
  have general: "zipPipeFileStream Z createInflateRaw fuel (Suc n) this = Stop Pending this"
    by (simp add: zipPipeFileStream_def awaitEndPromise_def)
  have run: "summary [''name'', ''size''] (zipWorker copyEngine 5 2 True
     (new_ZipExtractStream
        [Chunks [localFileHeader 0 5 5 ''a'' @ ''hello'' @ centralDirectoryBytes]])) =
     (Some Pending, [SeenEntry [Some (Str ''a''), Some (Num 5)] True],
      ''hello'' @ centralDirectoryBytes)"
    by (simp add: numeral_2_eq_2 new_ZipExtractStream_def new_ChunkBuffer_def localFileHeader_def
        centralDirectoryBytes_def consumeOrThrow_def consume_def consumeNow_def push_def
        Buffer_concat_def subarray_def subarrayFrom_def relativeIndex_def readUInt32BE_def
        localFileHeaderSignature_def zipEntry_def parseLocalFileHeader_def fixedPart_def
        readValue_def readBitField_def flagTemplate_def MAX_SAFE_INTEGER_def bitFlag_def
        fetchString_def emit_def zipPipeFileStream_def awaitEndPromise_def buffered_def Let_def)
  show ?thesis by (rule conjI[OF general run])
qed

text \<open>
  Claim C8 (the trailing data descriptor; without the optional signature the
  excess 4 bytes are pushed back into the staging buffer). The code gives the 4
  bytes back with \<^verbatim>\<open>giveBack(buffer, 4)\<close>, which assigns \<^verbatim>\<open>[leftovers]\<close> to the queue:
  the bytes that \<^verbatim>\<open>consume(16)\<close> left in the staging buffer are dropped. In the
  archive below the entries \<^verbatim>\<open>a\<close> and \<^verbatim>\<open>b\<close> have data descriptors without signature
  and everything arrives in one chunk. After the entry \<^verbatim>\<open>a\<close> the staging buffer
  holds the 4 signature bytes of the local file header of \<^verbatim>\<open>b\<close> and nothing else,
  with nothing left to arrive: the 48 bytes that followed them are lost. The
  worker reads the signature, stalls in the header of \<^verbatim>\<open>b\<close> and ends with the
  timeout of \<^verbatim>\<open>consume\<close>; \<^verbatim>\<open>b\<close> is never emitted. The same archive with the optional
  signatures is decoded in full.
\<close>

theorem unsigned_data_descriptor_drops_the_queue:
  "summary [''name'']
     (zipEntry copyEngine 5 sampleFuel
        (stateOf (consumeOrThrow 4 (new_ZipExtractStream [Chunks [twoEntries []]])))) =
     (None,
      [SeenEntry [Some (Str ''a'')] True, SeenPush ''hello'', SeenEnd,
       SeenDataDescriptor \<lparr>dd_crc32 = 1, dd_compressedSize = 5, dd_uncompressedSize = 5\<rparr>],
      take 4 (localFileHeader 8 0 0 ''b'')) \<and>
   arrivals (stateOf (zipEntry copyEngine 5 sampleFuel
        (stateOf (consumeOrThrow 4 (new_ZipExtractStream [Chunks [twoEntries []]]))))) = [] \<and>
   summary [''name''] (zipWorker copyEngine 5 sampleFuel True
      (new_ZipExtractStream [Chunks [twoEntries []]])) =
     (Some (Threw IOTimeout),
      [SeenEntry [Some (Str ''a'')] True, SeenPush ''hello'', SeenEnd,
       SeenDataDescriptor \<lparr>dd_crc32 = 1, dd_compressedSize = 5, dd_uncompressedSize = 5\<rparr>],
      []) \<and>
   summary [''name''] (zipWorker copyEngine 5 sampleFuel True
      (new_ZipExtractStream [Chunks [twoEntries descriptorSignatureBytes]])) =
     (None,
      [SeenEntry [Some (Str ''a'')] True, SeenPush ''hello'', SeenEnd,
       SeenDataDescriptor \<lparr>dd_crc32 = 1, dd_compressedSize = 5, dd_uncompressedSize = 5\<rparr>,
       SeenEntry [Some (Str ''b'')] True, SeenPush ''world'', SeenEnd,
       SeenDataDescriptor \<lparr>dd_crc32 = 2, dd_compressedSize = 5, dd_uncompressedSize = 5\<rparr>],
      [])"
  by (simp add: sampleFuel_def twoEntries_def zip_eval readDataDescriptor_def descriptorAt_def
      readUInt32LE_def crossCheck_def log_def dataDescriptorSignature_def
      centralDirectoryFileHeaderSignature_def)

end
